theory Spec2Isabelle
  imports Complex_Main "HOL-Library.Word"
begin

unbundle bit_operations_syntax

section \<open>Data model\<close>

text \<open>
  The types of \<^verbatim>\<open>image.hpp\<close> (\<^verbatim>\<open>src/unnamed/part_005\<close>) and \<^verbatim>\<open>compare.hpp\<close>
  (\<^verbatim>\<open>src/src/compare.hpp\<close>, lines 1 to 37), and the members of \<^verbatim>\<open>Image\<close> defined in
  \<^verbatim>\<open>image.cpp\<close> (\<^verbatim>\<open>src/src/compare.hpp\<close>, from line 38).

  \<^verbatim>\<open>uint8_t\<close>, \<^verbatim>\<open>uint32_t\<close>, \<^verbatim>\<open>uint64_t\<close> and \<^verbatim>\<open>unsigned long\<close> (64 bits on the LP64
  targets of Xlib) are words. The C \<^verbatim>\<open>int\<close> values of this code are channel
  differences, at most 510 after doubling, and the tolerance: they are \<open>int\<close>.
  In the comparison engine a \<^verbatim>\<open>double\<close> is modelled by a real number: the rounding
  of a floating-point division is not part of the model there. In
  \<^verbatim>\<open>extract_channel\<close>, whose result is a rounded quotient, every floating-point
  operation is followed by the rounding of IEEE 754 binary64 (\<open>binary64\<close> below).
\<close>

type_synonym u8 = "8 word"
type_synonym u32 = "32 word"
type_synonym u64 = "64 word"

text \<open>\<^verbatim>\<open>struct Pixel { uint8_t r, g, b, a; }\<close>, with the fields written out.\<close>

record Pixel =
  red :: u8
  green :: u8
  blue :: u8
  alpha :: u8

text \<open>\<^verbatim>\<open>class Image\<close>: the private members \<^verbatim>\<open>width_\<close>, \<^verbatim>\<open>height_\<close>, \<^verbatim>\<open>data_\<close>.\<close>

record Image =
  width :: u32
  height :: u32
  data :: "u8 list"

text \<open>
  What a C++ call can do besides returning: \<^verbatim>\<open>get_pixel\<close> and \<^verbatim>\<open>set_pixel\<close> throw
  \<^verbatim>\<open>std::out_of_range\<close>; an unchecked \<^verbatim>\<open>data_[offset]\<close> past the end of the vector is
  undefined behaviour, which the model reports as an error of its own.
\<close>

datatype error = out_of_range | undefined_access

text \<open>\<^verbatim>\<open>Image()\<close> and \<^verbatim>\<open>Image(width, height)\<close>; \<^verbatim>\<open>width * height * 4\<close> is computed in
  \<^verbatim>\<open>uint32_t\<close>.\<close>

definition Image_default :: Image where
  "Image_default = \<lparr>width = 0, height = 0, data = []\<rparr>"

definition Image_new :: "u32 \<Rightarrow> u32 \<Rightarrow> Image" where
  "Image_new w h = \<lparr>width = w, height = h, data = replicate (unat (w * h * 4)) 0\<rparr>"

definition empty :: "Image \<Rightarrow> bool" where
  "empty img = (data img = [])"

definition get_pixel :: "Image \<Rightarrow> u32 \<Rightarrow> u32 \<Rightarrow> error + Pixel" where
  "get_pixel img x y =
     (if x \<ge> width img \<or> y \<ge> height img then Inl out_of_range
      else let offset = unat ((y * width img + x) * 4) in
        if offset + 3 < length (data img)
        then Inr \<lparr>red = data img ! offset, green = data img ! (offset + 1),
                  blue = data img ! (offset + 2), alpha = data img ! (offset + 3)\<rparr>
        else Inl undefined_access)"

definition set_pixel :: "Image \<Rightarrow> u32 \<Rightarrow> u32 \<Rightarrow> Pixel \<Rightarrow> error + Image" where
  "set_pixel img x y pixel =
     (if x \<ge> width img \<or> y \<ge> height img then Inl out_of_range
      else let offset = unat ((y * width img + x) * 4) in
        if offset + 3 < length (data img)
        then Inr (img\<lparr>data := (data img)[offset := red pixel, offset + 1 := green pixel,
                                          offset + 2 := blue pixel, offset + 3 := alpha pixel]\<rparr>)
        else Inl undefined_access)"

text \<open>
  A \<^verbatim>\<open>std::ostringstream\<close> is the list of the values inserted with \<^verbatim>\<open><<\<close>, in order;
  every \<^verbatim>\<open>double\<close> of this program is inserted after \<^verbatim>\<open>std::fixed\<close>.
\<close>

datatype piece = Str string | U32 u32 | SInt int | Fixed real

record CompareResult =
  match :: bool
  different_pixels :: u32
  total_pixels :: u32
  difference_percent :: real
  max_channel_diff :: real
  avg_channel_diff :: real
  message :: "piece list"

text \<open>The default member initialisers of \<^verbatim>\<open>CompareResult\<close>.\<close>

definition CompareResult_default :: CompareResult where
  "CompareResult_default =
     \<lparr>match = False, different_pixels = 0, total_pixels = 0, difference_percent = 0,
      max_channel_diff = 0, avg_channel_diff = 0, message = []\<rparr>"

section \<open>Counting loops\<close>

text \<open>
  \<^verbatim>\<open>for (uint32_t i = 0; i < n; i++) body\<close> runs the body on \<open>0, 1, ..., n - 1\<close> and
  stops at the first error.
\<close>

definition range32 :: "u32 \<Rightarrow> u32 list" where
  "range32 n = map of_nat [0..<unat n]"

fun for_loop :: "'i list \<Rightarrow> ('i \<Rightarrow> 's \<Rightarrow> error + 's) \<Rightarrow> 's \<Rightarrow> error + 's" where
  "for_loop [] body s = Inr s"
| "for_loop (i # is) body s =
     (case body i s of Inl e \<Rightarrow> Inl e | Inr s' \<Rightarrow> for_loop is body s')"

section \<open>Comparison engine and diff renderer\<close>

text \<open>\<^verbatim>\<open>compare.cpp\<close>: the part of \<^verbatim>\<open>src/src/display.cpp\<close> from line 641.\<close>

text \<open>\<^verbatim>\<open>std::abs(static_cast<int>(a) - static_cast<int>(b))\<close>\<close>

definition channel_diff :: "u8 \<Rightarrow> u8 \<Rightarrow> int" where
  "channel_diff c d = \<bar>uint c - uint d\<bar>"

text \<open>The locals of \<^verbatim>\<open>Compare::fuzzy\<close> that its loop updates.\<close>

record fuzzy_state =
  result :: CompareResult
  total_diff :: real
  channel_count :: u64

text \<open>
  The body of the loops of \<^verbatim>\<open>Compare::fuzzy\<close>: \<open>fuzzy_body\<close> reads the two pixels and
  \<open>fuzzy_step\<close> updates the locals. \<open>fuzzy_finish\<close> is the code after the loops.
\<close>

definition fuzzy_step :: "int \<Rightarrow> Pixel \<Rightarrow> Pixel \<Rightarrow> fuzzy_state \<Rightarrow> fuzzy_state" where
  "fuzzy_step tolerance p1 p2 s =
     (let dr = channel_diff (red p1) (red p2);
          dg = channel_diff (green p1) (green p2);
          db = channel_diff (blue p1) (blue p2);
          da = channel_diff (alpha p1) (alpha p2);
          max_diff = max (max (max dr dg) db) da;
          res = (result s)\<lparr>max_channel_diff :=
                   max (max_channel_diff (result s)) (real_of_int max_diff)\<rparr>
      in \<lparr>result = (if max_diff > tolerance
                     then res\<lparr>different_pixels := different_pixels res + 1\<rparr> else res),
          total_diff = total_diff s + real_of_int (dr + dg + db + da),
          channel_count = channel_count s + 4\<rparr>)"

definition fuzzy_body ::
  "Image \<Rightarrow> Image \<Rightarrow> int \<Rightarrow> u32 \<Rightarrow> u32 \<Rightarrow> fuzzy_state \<Rightarrow> error + fuzzy_state" where
  "fuzzy_body img1 img2 tolerance y x s =
     (case get_pixel img1 x y of Inl e \<Rightarrow> Inl e
      | Inr p1 \<Rightarrow>
          (case get_pixel img2 x y of Inl e \<Rightarrow> Inl e
           | Inr p2 \<Rightarrow> Inr (fuzzy_step tolerance p1 p2 s)))"

definition fuzzy_finish :: "int \<Rightarrow> fuzzy_state \<Rightarrow> CompareResult" where
  "fuzzy_finish tolerance s =
     (let res = result s;
          res = res\<lparr>avg_channel_diff :=
                  (if channel_count s > 0 then total_diff s / real (unat (channel_count s))
                   else 0)\<rparr>;
          res = res\<lparr>difference_percent :=
                  (if total_pixels res > 0
                   then 100 * real (unat (different_pixels res)) / real (unat (total_pixels res))
                   else 0)\<rparr>;
          res = res\<lparr>match := (different_pixels res = 0)\<rparr>
      in if match res
         then res\<lparr>message := [Str ''Images match''] @
                  (if tolerance > 0
                   then [Str '' (within tolerance '', SInt tolerance, Str '')''] else [])\<rparr>
         else res\<lparr>message := [U32 (different_pixels res), Str '' pixels differ ('',
                  Fixed (difference_percent res), Str ''%), '', Str ''max channel diff: '',
                  Fixed (max_channel_diff res)]\<rparr>)"

text \<open>The state in which \<^verbatim>\<open>Compare::fuzzy\<close> enters its loops.\<close>

definition fuzzy_init :: "Image \<Rightarrow> fuzzy_state" where
  "fuzzy_init img1 =
     \<lparr>result = CompareResult_default\<lparr>total_pixels := width img1 * height img1,
                  different_pixels := 0, max_channel_diff := 0\<rparr>,
      total_diff = 0, channel_count = 0\<rparr>"

definition fuzzy :: "Image \<Rightarrow> Image \<Rightarrow> int \<Rightarrow> error + CompareResult" where
  "fuzzy img1 img2 tolerance =
     (if width img1 \<noteq> width img2 \<or> height img1 \<noteq> height img2
      then Inr (CompareResult_default\<lparr>match := False,
             message := [Str ''Dimension mismatch: '', U32 (width img1), Str ''x'',
                         U32 (height img1), Str '' vs '', U32 (width img2), Str ''x'',
                         U32 (height img2)]\<rparr>)
      else if empty img1 \<or> empty img2
      then Inr (CompareResult_default\<lparr>match := (empty img1 \<and> empty img2),
             message := (if empty img1 \<and> empty img2 then [Str ''Both images empty'']
                         else [Str ''One image empty''])\<rparr>)
      else
        (case for_loop (range32 (height img1))
                (\<lambda>y. for_loop (range32 (width img1)) (fuzzy_body img1 img2 tolerance y))
                (fuzzy_init img1)
         of Inl e \<Rightarrow> Inl e
          | Inr s \<Rightarrow> Inr (fuzzy_finish tolerance s)))"

definition exact :: "Image \<Rightarrow> Image \<Rightarrow> error + CompareResult" where
  "exact img1 img2 = fuzzy img1 img2 0"

definition fuzzy_percent :: "Image \<Rightarrow> Image \<Rightarrow> real \<Rightarrow> error + CompareResult" where
  "fuzzy_percent img1 img2 max_diff_percent =
     (case fuzzy img1 img2 255 of Inl e \<Rightarrow> Inl e
      | Inr res0 \<Rightarrow>
          (let res = res0\<lparr>match := (difference_percent res0 \<le> max_diff_percent)\<rparr>
           in if match res \<and> different_pixels res > 0
              then Inr (res\<lparr>message := [U32 (different_pixels res), Str '' pixels differ ('',
                          Fixed (difference_percent res), Str ''%) - within '',
                          Fixed max_diff_percent, Str ''% threshold'']\<rparr>)
              else Inr res))"

text \<open>\<^verbatim>\<open>Compare::generate_diff\<close>: the body of its loops, then the function.\<close>

definition generate_diff_body ::
  "Image \<Rightarrow> Image \<Rightarrow> int \<Rightarrow> u32 \<Rightarrow> u32 \<Rightarrow> Image \<Rightarrow> error + Image" where
  "generate_diff_body img1 img2 tolerance y x diff =
     (let in_img1 = (x < width img1 \<and> y < height img1);
          in_img2 = (x < width img2 \<and> y < height img2)
      in if \<not> in_img1 \<and> \<not> in_img2
         then set_pixel diff x y \<lparr>red = 0, green = 0, blue = 0, alpha = 255\<rparr>
         else if \<not> in_img1
         then set_pixel diff x y \<lparr>red = 0, green = 255, blue = 0, alpha = 255\<rparr>
         else if \<not> in_img2
         then set_pixel diff x y \<lparr>red = 0, green = 0, blue = 255, alpha = 255\<rparr>
         else
           (case get_pixel img1 x y of Inl e \<Rightarrow> Inl e
            | Inr p1 \<Rightarrow>
                (case get_pixel img2 x y of Inl e \<Rightarrow> Inl e
                 | Inr p2 \<Rightarrow>
                     (let dr = channel_diff (red p1) (red p2);
                          dg = channel_diff (green p1) (green p2);
                          db = channel_diff (blue p1) (blue p2);
                          da = channel_diff (alpha p1) (alpha p2);
                          max_diff = max (max (max dr dg) db) da
                      in if max_diff > tolerance
                         then (let intensity = (of_int (min 255 (max_diff * 2)) :: u8)
                               in set_pixel diff x y
                                    \<lparr>red = 255, green = of_int (255 - uint intensity),
                                     blue = of_int (255 - uint intensity), alpha = 255\<rparr>)
                         else set_pixel diff x y
                                \<lparr>red = of_int (uint (red p1) div 2),
                                 green = of_int (uint (green p1) div 2),
                                 blue = of_int (uint (blue p1) div 2), alpha = 255\<rparr>))))"

definition generate_diff :: "Image \<Rightarrow> Image \<Rightarrow> int \<Rightarrow> error + Image" where
  "generate_diff img1 img2 tolerance =
     (let w = max (width img1) (width img2);
          h = max (height img1) (height img2)
      in if w = 0 \<or> h = 0 then Inr Image_default
         else for_loop (range32 h)
                (\<lambda>y. for_loop (range32 w) (generate_diff_body img1 img2 tolerance y))
                (Image_new w h))"

section \<open>Pixel format normalizer\<close>

text \<open>
  \<^verbatim>\<open>extract_channel\<close> and \<^verbatim>\<open>Capture::ximage_to_image\<close> of \<^verbatim>\<open>src/src/capture.cpp\<close>, lines
  150 to 227. The first loop of \<^verbatim>\<open>extract_channel\<close>:
  \<^verbatim>\<open>while (((mask >> shift) & 1UL) == 0UL && shift < 64) shift++;\<close>
  (the parameter \<^verbatim>\<open>mask\<close> is written \<open>msk\<close>, \<open>mask\<close> being a constant of HOL).
\<close>

function find_shift :: "u64 \<Rightarrow> nat \<Rightarrow> nat" where
  "find_shift msk shift =
     (if drop_bit shift msk AND 1 = 0 \<and> shift < 64 then find_shift msk (shift + 1)
      else shift)"
  by pat_completeness auto
termination
  by (relation "measure (\<lambda>(msk, shift). 64 - shift)") auto

declare find_shift.simps [simp del]

text \<open>The second loop: \<^verbatim>\<open>while (tmp) { bits += (tmp & 1UL); tmp >>= 1; }\<close>\<close>

function count_bits :: "u64 \<Rightarrow> nat \<Rightarrow> nat" where
  "count_bits tmp bits =
     (if tmp \<noteq> 0 then count_bits (drop_bit 1 tmp) (bits + unat (tmp AND 1)) else bits)"
  by pat_completeness auto
termination
proof (relation "measure (\<lambda>(tmp, bits). unat tmp)")
  show "wf (measure (\<lambda>(tmp :: u64, bits :: nat). unat tmp))"
    by simp
next
  fix tmp :: u64 and bits :: nat
  assume "tmp \<noteq> 0"
  then have "0 < unat tmp"
    by (simp add: unat_gt_0)
  then have "unat tmp div 2 < unat tmp"
    by simp
  then show "((drop_bit 1 tmp, bits + unat (tmp AND 1)), tmp, bits)
      \<in> measure (\<lambda>(tmp, bits). unat tmp)"
    by (simp add: unat_drop_bit_eq drop_bit_eq_div unat_div)
qed

declare count_bits.simps [simp del]

text \<open>
  The arithmetic of \<^verbatim>\<open>double\<close>: IEEE 754 binary64 with the default rounding, to the
  nearest value with a significand of 53 bits, halfway cases to the even significand.
  \<open>round_ties_even\<close> rounds to an integer in that way; \<open>binary64 x\<close> scales \<open>x\<close> by the
  power of two that brings it between \<open>2 ^ 52\<close> and \<open>2 ^ 53\<close>, rounds, and scales back.
  The exponent range is not limited: the values of \<^verbatim>\<open>extract_channel\<close> are zero or lie
  between \<open>2 ^ - 64\<close> and \<open>2 ^ 72\<close>, far from overflow and from the subnormal numbers.
\<close>

definition round_ties_even :: "real \<Rightarrow> int" where
  "round_ties_even y =
     (let f = \<lfloor>y\<rfloor>; d = y - of_int f
      in if d < 1 / 2 then f else if d > 1 / 2 then f + 1 else if even f then f else f + 1)"

definition binary64 :: "real \<Rightarrow> real" where
  "binary64 x =
     (if x = 0 then 0
      else (let e = \<lfloor>log 2 \<bar>x\<bar>\<rfloor>
            in of_int (round_ties_even (x * 2 powr (52 - e))) * 2 powr (e - 52)))"

text \<open>\<^verbatim>\<open>std::lround\<close>: to the nearest integer, halfway cases away from zero.\<close>

definition lround :: "real \<Rightarrow> int" where
  "lround v = (if 0 \<le> v then \<lfloor>v + 1 / 2\<rfloor> else - \<lfloor>- v + 1 / 2\<rfloor>)"

text \<open>
  \<^verbatim>\<open>extract_channel\<close>. The two conversions \<^verbatim>\<open>static_cast<double>(shifted_mask)\<close> and
  \<^verbatim>\<open>static_cast<double>(value)\<close>, the product by \<^verbatim>\<open>255.0\<close> and the quotient are each
  rounded to binary64; \<^verbatim>\<open>std::min\<close> and \<^verbatim>\<open>std::lround\<close> are exact.
\<close>

definition extract_channel :: "u64 \<Rightarrow> u64 \<Rightarrow> u8" where
  "extract_channel pixel msk =
     (if msk = 0 then 0
      else
        (let shift = find_shift msk 0;
             shifted_mask = drop_bit shift msk;
             bits = count_bits shifted_mask 0
         in if bits = 0 then 0
            else
              (let val = drop_bit shift (pixel AND msk);
                   max_val = binary64 (real (unat shifted_mask));
                   normalized =
                     (if max_val > 0 then binary64 (binary64 (binary64 (real (unat val)) * 255) / max_val)
                      else 0)
               in of_int (lround (min 255 normalized)))))"

text \<open>
  The fields of Xlib's \<^verbatim>\<open>XImage\<close> that \<^verbatim>\<open>ximage_to_image\<close> reads. \<^verbatim>\<open>XGetPixel\<close> is
  the accessor stored in the structure by Xlib; it is a parameter of the model.
\<close>

record XImage =
  ximage_width :: int
  ximage_height :: int
  depth :: int
  bits_per_pixel :: int
  red_mask :: u64
  green_mask :: u64
  blue_mask :: u64
  XGetPixel :: "u32 \<Rightarrow> u32 \<Rightarrow> u64"

text \<open>The alpha mask computed before the loops (\<^verbatim>\<open>sizeof(unsigned long) * 8 = 64\<close>).\<close>

definition alpha_mask_of :: "XImage \<Rightarrow> u64" where
  "alpha_mask_of ximg =
     (if depth ximg > 24
      then (let rgb_mask = red_mask ximg OR green_mask ximg OR blue_mask ximg;
                bpp = bits_per_pixel ximg;
                pixel_mask = (if bpp \<ge> 64 then NOT 0 else push_bit (nat bpp) 1 - 1)
            in pixel_mask AND NOT rgb_mask)
      else 0)"

text \<open>The body of the inner loop, up to the call of \<^verbatim>\<open>set_pixel\<close>.\<close>

definition convert_pixel :: "XImage \<Rightarrow> u64 \<Rightarrow> u64 \<Rightarrow> Pixel" where
  "convert_pixel ximg alpha_mask pixel =
     (let r = extract_channel pixel (red_mask ximg);
          g = extract_channel pixel (green_mask ximg);
          b = extract_channel pixel (blue_mask ximg);
          a = (if alpha_mask \<noteq> 0 then extract_channel pixel alpha_mask else 255);
          a = (if alpha_mask \<noteq> 0 \<and> a = 0 then 255 else a)
      in \<lparr>red = r, green = g, blue = b, alpha = a\<rparr>)"

definition ximage_to_image :: "XImage option \<Rightarrow> error + Image" where
  "ximage_to_image ximg_ptr =
     (case ximg_ptr of None \<Rightarrow> Inr Image_default
      | Some ximg \<Rightarrow>
          (let w = (of_int (ximage_width ximg) :: u32);
               h = (of_int (ximage_height ximg) :: u32);
               alpha_mask = alpha_mask_of ximg
           in for_loop (range32 h)
                (\<lambda>y. for_loop (range32 w)
                   (\<lambda>x img. set_pixel img x y
                               (convert_pixel ximg alpha_mask (XGetPixel ximg x y))))
                (Image_new w h)))"

section \<open>Persistence\<close>

text \<open>
  \<^verbatim>\<open>Image::save_png\<close> and \<^verbatim>\<open>Image::load_png\<close> (\<^verbatim>\<open>src/src/compare.hpp\<close>, lines 115 to
  232) call the C library and libpng. What those calls
  answer is a parameter of the model: whether \<^verbatim>\<open>fopen\<close> and the two libpng
  constructors return a non-null pointer, and whether libpng reports an error by
  \<^verbatim>\<open>longjmp\<close> to the \<^verbatim>\<open>setjmp\<close> point.
\<close>

record png_write_env =
  write_fopen_ok :: bool
  create_write_struct_ok :: bool
  write_info_struct_ok :: bool
  write_longjmp :: bool

definition save_png :: "Image \<Rightarrow> string \<Rightarrow> png_write_env \<Rightarrow> bool" where
  "save_png img filename env =
     (if \<not> write_fopen_ok env then False
      else if \<not> create_write_struct_ok env then False
      else if \<not> write_info_struct_ok env then False
      else if write_longjmp env then False
      else True)"



subsection \<open>Persistence on a file system\<close>

text \<open>
  Modelled from the spec: libpng and the file system, which carry the round trip of
  section 4.2, are not code of this repository. Section 6 of the spec describes the
  persistence format as a lossless raster container with 8 bits per channel, RGBA,
  without interlacing. A stored PNG file is modelled by what its header (\<^verbatim>\<open>IHDR\<close>)
  declares, by whether it has a \<^verbatim>\<open>tRNS\<close> chunk, and by the rows of samples the
  encoder was given: compression is lossless, so these are the rows a decoder
  delivers when no transformation is requested.
\<close>

datatype color_type =
    COLOR_TYPE_GRAY | COLOR_TYPE_PALETTE | COLOR_TYPE_RGB | COLOR_TYPE_GRAY_ALPHA | COLOR_TYPE_RGBA

record png_file =
  png_width :: u32
  png_height :: u32
  png_bit_depth :: nat
  png_color_type :: color_type
  png_interlaced :: bool
  png_has_tRNS :: bool
  png_rows :: "u8 list list"

text \<open>
  Modelled from the spec: the file system of the persistence calls of section 4.2. A
  path holds a PNG file, or data that libpng does not accept (an empty, damaged or
  foreign file), or nothing. \<^verbatim>\<open>fopen(path, "wb")\<close> succeeds on the paths of \<open>can_write\<close>
  and leaves an empty file; \<^verbatim>\<open>fopen(path, "rb")\<close> succeeds on the paths that hold a
  file. \<open>can_allocate\<close> tells whether the constructors of libpng return an object.
\<close>

datatype file_content = png_data png_file | other_data

record world =
  files :: "string \<Rightarrow> file_content option"
  can_write :: "string \<Rightarrow> bool"
  can_allocate :: bool

text \<open>
  Modelled from the spec: the check that libpng (not part of the repository) applies
  to the dimensions of a header, in \<^verbatim>\<open>png_set_IHDR\<close> when writing and in
  \<^verbatim>\<open>png_read_info\<close> when reading: a zero width or height is an error, and so is one
  above the limit of one million that libpng imposes by default. The error is
  reported by \<^verbatim>\<open>longjmp\<close>.
\<close>

definition ihdr_ok :: "u32 \<Rightarrow> u32 \<Rightarrow> bool" where
  "ihdr_ok w h \<longleftrightarrow> w \<noteq> 0 \<and> h \<noteq> 0 \<and> unat w \<le> 1000000 \<and> unat h \<le> 1000000"

text \<open>
  The loop of \<^verbatim>\<open>save_png\<close> that sets \<^verbatim>\<open>row_pointers[y] = data_.data() + y * width_ * 4\<close>
  (the offset is a \<^verbatim>\<open>uint32_t\<close>), together with \<^verbatim>\<open>png_write_image\<close>, which reads
  \<open>4 * width\<close> bytes at each row pointer. Reading past the buffer is undefined.
\<close>

definition image_rows :: "Image \<Rightarrow> error + u8 list list" where
  "image_rows img =
     for_loop (range32 (height img))
       (\<lambda>y rows.
          (let offset = unat (y * width img * 4); rowbytes = unat (width img) * 4
           in if offset + rowbytes \<le> length (data img)
              then Inr (rows @ [take rowbytes (drop offset (data img))])
              else Inl undefined_access))
       []"

text \<open>
  \<^verbatim>\<open>Image::save_png\<close> (\<^verbatim>\<open>src/src/compare.hpp\<close>, lines 115 to 161) on a file system:
  the result and the file system it leaves. The header is the one of the call
  \<^verbatim>\<open>png_set_IHDR(png, info, width_, height_, 8, PNG_COLOR_TYPE_RGBA, PNG_INTERLACE_NONE, ...)\<close>;
  no other chunk is set.
\<close>

definition save_png_fs :: "Image \<Rightarrow> string \<Rightarrow> world \<Rightarrow> error + (bool \<times> world)" where
  "save_png_fs img filename w =
     (if \<not> can_write w filename then Inr (False, w)
      else
        (let opened = w\<lparr>files := (files w)(filename \<mapsto> other_data)\<rparr>
         in if \<not> can_allocate w then Inr (False, opened)
            else if \<not> ihdr_ok (width img) (height img) then Inr (False, opened)
            else
              (case image_rows img of
                 Inl e \<Rightarrow> Inl e
               | Inr rows \<Rightarrow>
                   Inr (True,
                     w\<lparr>files := (files w)(filename \<mapsto> png_data
                        \<lparr>png_width = width img, png_height = height img, png_bit_depth = 8,
                         png_color_type = COLOR_TYPE_RGBA, png_interlaced = False,
                         png_has_tRNS = False, png_rows = rows\<rparr>)\<rparr>))))"

text \<open>
  The transformations that \<^verbatim>\<open>load_png\<close> requests from libpng, in the order of its
  tests on the bit depth, the colour type and the presence of a \<^verbatim>\<open>tRNS\<close> chunk.
\<close>

datatype transform =
    strip_16 | palette_to_rgb | expand_gray_1_2_4_to_8 | tRNS_to_alpha | filler_after u8
  | gray_to_rgb

definition requested_transforms :: "png_file \<Rightarrow> transform list" where
  "requested_transforms f =
     (let color_type = png_color_type f; bit_depth = png_bit_depth f
      in (if bit_depth = 16 then [strip_16] else [])
         @ (if color_type = COLOR_TYPE_PALETTE then [palette_to_rgb] else [])
         @ (if color_type = COLOR_TYPE_GRAY \<and> bit_depth < 8 then [expand_gray_1_2_4_to_8] else [])
         @ (if png_has_tRNS f then [tRNS_to_alpha] else [])
         @ (if color_type = COLOR_TYPE_RGB \<or> color_type = COLOR_TYPE_GRAY
               \<or> color_type = COLOR_TYPE_PALETTE
            then [filler_after 0xFF] else [])
         @ (if color_type = COLOR_TYPE_GRAY \<or> color_type = COLOR_TYPE_GRAY_ALPHA
            then [gray_to_rgb] else []))"

text \<open>
  Modelled from the spec: the rows that the decoder of libpng (not part of the
  repository) delivers. With no transformation requested they are the stored rows,
  the format being lossless and libpng applying no gamma or colour conversion that
  was not requested. What the transformations make of the other encodings is a
  parameter, \<open>convert\<close>.
\<close>

definition decoded_rows ::
  "(transform list \<Rightarrow> png_file \<Rightarrow> u8 list list) \<Rightarrow> png_file \<Rightarrow> u8 list list" where
  "decoded_rows convert f =
     (if requested_transforms f = [] then png_rows f else convert (requested_transforms f) f)"

text \<open>\<^verbatim>\<open>data_.resize(n)\<close>: the first \<open>n\<close> bytes are kept, new bytes are zero.\<close>

definition resize :: "u8 list \<Rightarrow> nat \<Rightarrow> u8 list" where
  "resize xs n = take n xs @ replicate (n - length xs) 0"

text \<open>
  \<^verbatim>\<open>png_read_image\<close> copies each decoded row to its row pointer,
  \<^verbatim>\<open>data_.data() + y * width_ * 4\<close>. Writing past the buffer is undefined.
\<close>

definition store_row :: "u8 list \<Rightarrow> nat \<Rightarrow> u8 list \<Rightarrow> error + u8 list" where
  "store_row buf offset row =
     (if offset + length row \<le> length buf
      then Inr (take offset buf @ row @ drop (offset + length row) buf)
      else Inl undefined_access)"

definition store_rows :: "u32 \<Rightarrow> u32 \<Rightarrow> u8 list list \<Rightarrow> u8 list \<Rightarrow> error + u8 list" where
  "store_rows new_width new_height rows buf =
     for_loop (range32 new_height)
       (\<lambda>y buf. store_row buf (unat (y * new_width * 4)) (rows ! unat y))
       buf"

text \<open>
  \<^verbatim>\<open>Image::load_png\<close> (\<^verbatim>\<open>src/src/compare.hpp\<close>, lines 163 to 232) on a file system: the
  result and the image it leaves. A file whose rows are not \<open>height\<close> many is damaged:
  libpng reports the error while it reads the image, after the members were
  overwritten.
\<close>

definition load_png_fs ::
  "(transform list \<Rightarrow> png_file \<Rightarrow> u8 list list) \<Rightarrow> Image \<Rightarrow> string \<Rightarrow> world
     \<Rightarrow> error + (bool \<times> Image)" where
  "load_png_fs convert img filename w =
     (case files w filename of
        None \<Rightarrow> Inr (False, img)
      | Some content \<Rightarrow>
          if \<not> can_allocate w then Inr (False, img)
          else
            (case content of
               other_data \<Rightarrow> Inr (False, img)
             | png_data f \<Rightarrow>
                 if \<not> ihdr_ok (png_width f) (png_height f) then Inr (False, img)
                 else
                   (let new_width = png_width f;
                        new_height = png_height f;
                        rows = decoded_rows convert f;
                        buf = resize (data img) (unat (new_width * new_height * 4))
                    in if length rows \<noteq> unat new_height
                       then Inr (False, \<lparr>width = new_width, height = new_height, data = buf\<rparr>)
                       else
                         (case store_rows new_width new_height rows buf of
                            Inl e \<Rightarrow> Inl e
                          | Inr stored \<Rightarrow>
                              Inr (True,
                                \<lparr>width = new_width, height = new_height, data = stored\<rparr>)))))"

section \<open>Functions used to state the properties\<close>

text \<open>
  The invariant of a canonical image, with the bound that keeps the \<^verbatim>\<open>uint32_t\<close>
  products of \<^verbatim>\<open>Image(width, height)\<close>, \<^verbatim>\<open>get_pixel\<close> and \<^verbatim>\<open>set_pixel\<close> from wrapping.
\<close>

definition image_ok :: "Image \<Rightarrow> bool" where
  "image_ok img \<longleftrightarrow>
     length (data img) = unat (width img) * unat (height img) * 4
     \<and> unat (width img) * unat (height img) * 4 < 2 ^ 32"

text \<open>The pixel in column \<open>x\<close> of row \<open>y\<close> of the row-major RGBA buffer.\<close>

definition pixel_at :: "Image \<Rightarrow> nat \<Rightarrow> nat \<Rightarrow> Pixel" where
  "pixel_at img x y =
     (let i = (y * unat (width img) + x) * 4
      in \<lparr>red = data img ! i, green = data img ! (i + 1),
          blue = data img ! (i + 2), alpha = data img ! (i + 3)\<rparr>)"

text \<open>All positions \<open>(y, x)\<close> of an image, and the pixels two images have there.\<close>

definition positions :: "Image \<Rightarrow> (nat \<times> nat) list" where
  "positions img = List.product [0..<unat (height img)] [0..<unat (width img)]"

definition pixel_pairs :: "Image \<Rightarrow> Image \<Rightarrow> (Pixel \<times> Pixel) list" where
  "pixel_pairs img1 img2 =
     map (\<lambda>(y, x). (pixel_at img1 x y, pixel_at img2 x y)) (positions img1)"

text \<open>The four channel differences of a pair of pixels; a pair is different at
  tolerance \<open>t\<close> when the largest of them exceeds \<open>t\<close>.\<close>

definition channel_diffs :: "Pixel \<Rightarrow> Pixel \<Rightarrow> int list" where
  "channel_diffs p q =
     [channel_diff (red p) (red q), channel_diff (green p) (green q),
      channel_diff (blue p) (blue q), channel_diff (alpha p) (alpha q)]"

text \<open>The largest of the four channel differences: \<^verbatim>\<open>std::max({dr, dg, db, da})\<close>.\<close>

definition pixel_max_diff :: "Pixel \<Rightarrow> Pixel \<Rightarrow> int" where
  "pixel_max_diff p1 p2 =
     (let dr = channel_diff (red p1) (red p2);
          dg = channel_diff (green p1) (green p2);
          db = channel_diff (blue p1) (blue p2);
          da = channel_diff (alpha p1) (alpha p2)
      in max (max (max dr dg) db) da)"

definition exceeds :: "int \<Rightarrow> Pixel \<times> Pixel \<Rightarrow> bool" where
  "exceeds t pq = (t < Max (set (channel_diffs (fst pq) (snd pq))))"

definition all_channel_diffs :: "Image \<Rightarrow> Image \<Rightarrow> int list" where
  "all_channel_diffs img1 img2 =
     concat (map (\<lambda>(p, q). channel_diffs p q) (pixel_pairs img1 img2))"

text \<open>What a successful \<open>set_pixel\<close> does to the buffer, with the offset as a natural number.\<close>

definition put_pixel :: "Image \<Rightarrow> nat \<Rightarrow> nat \<Rightarrow> Pixel \<Rightarrow> Image" where
  "put_pixel img x y p =
     (let i = (y * unat (width img) + x) * 4
      in img\<lparr>data := (data img)[i := red p, i + 1 := green p,
                                  i + 2 := blue p, i + 3 := alpha p]\<rparr>)"

text \<open>The loop invariant of the rendering loops: the canvas keeps its shape.\<close>

definition same_shape :: "Image \<Rightarrow> Image \<Rightarrow> bool" where
  "same_shape d0 d \<longleftrightarrow> image_ok d \<and> width d = width d0 \<and> height d = height d0"

text \<open>
  The pixel the diff renderer is specified to paint at column \<open>x\<close>, row \<open>y\<close>: where
  both images have the pixel, a red highlight \<open>(255, 255 - i, 255 - i, 255)\<close> with
  \<open>i = min 255 (2 * max_channel_diff)\<close> when the largest channel difference exceeds the
  tolerance, otherwise the pixel of \<open>a\<close> with halved channels; opaque green where only
  \<open>b\<close> has the pixel, opaque blue where only \<open>a\<close> has it, opaque black elsewhere.
\<close>

definition expected_diff_pixel :: "Image \<Rightarrow> Image \<Rightarrow> int \<Rightarrow> nat \<Rightarrow> nat \<Rightarrow> Pixel" where
  "expected_diff_pixel a b t x y =
     (let in_a = (x < unat (width a) \<and> y < unat (height a));
          in_b = (x < unat (width b) \<and> y < unat (height b))
      in if in_a \<and> in_b
         then (let p = pixel_at a x y;
                   m = Max (set (channel_diffs p (pixel_at b x y)))
               in if t < m
                  then \<lparr>red = 255, green = of_int (255 - min 255 (2 * m)),
                        blue = of_int (255 - min 255 (2 * m)), alpha = 255\<rparr>
                  else \<lparr>red = of_int (uint (red p) div 2), green = of_int (uint (green p) div 2),
                        blue = of_int (uint (blue p) div 2), alpha = 255\<rparr>)
         else if in_b then \<lparr>red = 0, green = 255, blue = 0, alpha = 255\<rparr>
         else if in_a then \<lparr>red = 0, green = 0, blue = 255, alpha = 255\<rparr>
         else \<lparr>red = 0, green = 0, blue = 0, alpha = 255\<rparr>)"

text \<open>
  The index of the lowest set bit of a mask (64 for the zero mask) and the number of its
  set bits, computed from the bits themselves.
\<close>

definition lowest_set_bit :: "u64 \<Rightarrow> nat" where
  "lowest_set_bit w = length (takeWhile (\<lambda>n. \<not> bit w n) [0..<64])"

definition population_count :: "u64 \<Rightarrow> nat" where
  "population_count w = length (filter (bit w) [0..<64])"

section \<open>Example inputs\<close>

text \<open>One black and one white pixel, and two images of two pixels that differ by
  \<open>(0, 0, 1, 0)\<close> in the first pixel and by \<open>(0, 5, 0, 5)\<close> in the second.\<close>

definition black_1x1 :: Image where
  "black_1x1 = \<lparr>width = 1, height = 1, data = [0, 0, 0, 255]\<rparr>"

definition white_1x1 :: Image where
  "white_1x1 = \<lparr>width = 1, height = 1, data = [255, 255, 255, 255]\<rparr>"

definition two_pixels_a :: Image where
  "two_pixels_a = \<lparr>width = 2, height = 1, data = [0, 0, 0, 255, 10, 20, 30, 255]\<rparr>"

definition two_pixels_b :: Image where
  "two_pixels_b = \<lparr>width = 2, height = 1, data = [0, 0, 1, 255, 10, 25, 30, 250]\<rparr>"

text \<open>The 4 x 4 image in which every pixel is opaque red.\<close>

definition red_4x4 :: Image where
  "red_4x4 = \<lparr>width = 4, height = 4, data = concat (replicate 16 [255, 0, 0, 255])\<rparr>"

text \<open>A 1 x 1 frame holding the packed pixel \<open>0x00FF0000\<close>: 32 bits per pixel, depth 24.\<close>

definition case_a_ximage :: XImage where
  "case_a_ximage =
     \<lparr>ximage_width = 1, ximage_height = 1, depth = 24, bits_per_pixel = 32,
      red_mask = 0x00FF0000, green_mask = 0x0000FF00, blue_mask = 0x000000FF,
      XGetPixel = (\<lambda>x y. 0x00FF0000)\<rparr>"

text \<open>The same frame on a drawable of depth 32, whose alpha bits are all zero.\<close>

definition argb_ximage :: XImage where
  "argb_ximage = case_a_ximage\<lparr>depth := 32\<rparr>"

text \<open>A 1 x 1 frame in the 16-bit 565 format holding the packed pixel \<open>0xF800\<close>.\<close>

definition rgb565_ximage :: XImage where
  "rgb565_ximage =
     \<lparr>ximage_width = 1, ximage_height = 1, depth = 16, bits_per_pixel = 16,
      red_mask = 0xF800, green_mask = 0x07E0, blue_mask = 0x001F,
      XGetPixel = (\<lambda>x y. 0xF800)\<rparr>"

text \<open>
  An image of 256 x 256 pixels whose pixel in column \<open>x\<close> of row \<open>y\<close> is \<open>(x, y, x, y)\<close>:
  every channel takes all 256 levels, alpha among them with its two extremes. A file
  system in which every path can be written and holds nothing yet.
\<close>

definition levels_image :: Image where
  "levels_image =
     \<lparr>width = 256, height = 256,
      data = concat (map (\<lambda>y. concat (map (\<lambda>x. [of_nat x, of_nat y, of_nat x, of_nat y]) [0..<256]))
               [0..<256])\<rparr>"

definition empty_disk :: world where
  "empty_disk = \<lparr>files = (\<lambda>path. None), can_write = (\<lambda>path. True), can_allocate = True\<rparr>"

section \<open>Shape mismatch and empty images\<close>

text \<open>
  Claim C7. \<open>fuzzy\<close> first checks the dimensions: when they differ it returns a result
  (not an error) with \<open>match = False\<close>, the message
  \<open>Dimension mismatch: W1xH1 vs W2xH2\<close>, and counters that were never touched
  (\<open>different_pixels = 0\<close>, \<open>total_pixels = 0\<close>). When the dimensions agree and one
  of the images is empty, it returns a result whose \<open>match\<close> holds exactly when both
  are empty. In particular two \<open>Image(0, 0)\<close> match at every tolerance.
\<close>

theorem fuzzy_mismatch_and_empty:
  "(width a \<noteq> width b \<or> height a \<noteq> height b \<longrightarrow>
      (\<exists>res. fuzzy a b t = Inr res \<and> \<not> match res
         \<and> message res = [Str ''Dimension mismatch: '', U32 (width a), Str ''x'',
                           U32 (height a), Str '' vs '', U32 (width b), Str ''x'',
                           U32 (height b)]
         \<and> different_pixels res = 0 \<and> total_pixels res = 0
         \<and> difference_percent res = 0 \<and> max_channel_diff res = 0
         \<and> avg_channel_diff res = 0))
   \<and> (width a = width b \<and> height a = height b \<and> (empty a \<or> empty b) \<longrightarrow>
      (\<exists>res. fuzzy a b t = Inr res \<and> (match res \<longleftrightarrow> empty a \<and> empty b)
         \<and> different_pixels res = 0 \<and> total_pixels res = 0))
   \<and> (\<exists>res. fuzzy (Image_new 0 0) (Image_new 0 0) t = Inr res \<and> match res)"
  by (simp add: fuzzy_def CompareResult_default_def Image_new_def empty_def)

theorem fuzzy_mismatch_and_empty_witness:
  "(\<exists>res. fuzzy (Image_new 1 1) (Image_new 2 1) 0 = Inr res \<and> \<not> match res
      \<and> different_pixels res = 0 \<and> total_pixels res = 0)
   \<and> (\<exists>res. fuzzy (Image_new 0 5) (Image_new 0 5) 7 = Inr res \<and> match res)"
proof
  have "width (Image_new 1 1) \<noteq> width (Image_new 2 1)"
    by (simp add: Image_new_def)
  with fuzzy_mismatch_and_empty [of "Image_new 1 1" "Image_new 2 1" 0]
  show "\<exists>res. fuzzy (Image_new 1 1) (Image_new 2 1) 0 = Inr res \<and> \<not> match res
      \<and> different_pixels res = 0 \<and> total_pixels res = 0"
    by blast
next
  have "empty (Image_new 0 5)"
    by (simp add: Image_new_def empty_def)
  with fuzzy_mismatch_and_empty [of "Image_new 0 5" "Image_new 0 5" 7]
  show "\<exists>res. fuzzy (Image_new 0 5) (Image_new 0 5) 7 = Inr res \<and> match res"
    by blast
qed

section \<open>The comparison loop as a fold over the pixel pairs\<close>

lemma index_bound:
  fixes W H x y :: nat
  assumes "x < W" "y < H"
  shows "(y * W + x) * 4 + 3 < W * H * 4"
proof -
  have "y * W + x < (y + 1) * W" using assms by simp
  also have "\<dots> \<le> H * W" using assms by (intro mult_le_mono1) simp
  finally have "y * W + x + 1 \<le> W * H" by (simp add: mult.commute)
  then have "(y * W + x + 1) * 4 \<le> W * H * 4" by simp
  then show ?thesis by simp
qed

lemma offset_unat:
  assumes ok: "unat (w :: u32) * H * 4 < 2 ^ 32" and x: "x < unat w" and y: "y < H"
  shows "unat ((of_nat y * w + of_nat x) * 4 :: u32) = (y * unat w + x) * 4"
proof -
  define n where "n = (y * unat w + x) * 4"
  have b: "n + 3 < unat w * H * 4"
    unfolding n_def using x y by (rule index_bound)
  have "(of_nat y * w + of_nat x) * 4 = (of_nat n :: u32)"
    by (simp add: n_def)
  moreover have "n < 2 ^ 32"
    using b ok by linarith
  then have "unat (of_nat n :: u32) = n"
    by (simp add: unat_of_nat)
  ultimately show ?thesis by (simp add: n_def)
qed

lemma of_nat_less32: "n < unat (w :: u32) \<Longrightarrow> (of_nat n :: u32) < w"
  by (simp add: word_less_nat_alt unat_of_nat)

lemma get_pixel_ok:
  assumes "image_ok img" "x < unat (width img)" "y < unat (height img)"
  shows "get_pixel img (of_nat x) (of_nat y) = Inr (pixel_at img x y)"
proof -
  have o: "unat ((of_nat y * width img + of_nat x) * 4 :: u32) = (y * unat (width img) + x) * 4"
    using assms by (intro offset_unat[where H = "unat (height img)"]) (simp_all add: image_ok_def)
  have b: "(y * unat (width img) + x) * 4 + 3 < length (data img)"
    using assms index_bound[of x "unat (width img)" y "unat (height img)"] by (simp add: image_ok_def)
  have "of_nat x < width img" "of_nat y < height img"
    using assms by (simp_all add: of_nat_less32)
  then show ?thesis
    using o b by (simp add: get_pixel_def pixel_at_def Let_def not_le[symmetric] del: not_le)
qed

lemma for_loop_map_fold:
  assumes "\<And>i s. i \<in> set xs \<Longrightarrow> body (g i) s = Inr (f i s)"
  shows "for_loop (map g xs) body s = Inr (fold f xs s)"
  using assms by (induction xs arbitrary: s) simp_all

lemma fold_product:
  "fold (\<lambda>(y, x). f y x) (List.product ys xs) s = fold (\<lambda>y. fold (f y) xs) ys s"
  by (induction ys arbitrary: s) (simp_all add: fold_map comp_def)

lemma fuzzy_body_ok:
  assumes "image_ok a" "image_ok b" "width a = width b" "height a = height b"
    and "x < unat (width a)" "y < unat (height a)"
  shows "fuzzy_body a b t (of_nat y) (of_nat x) s
          = Inr (fuzzy_step t (pixel_at a x y) (pixel_at b x y) s)"
  using assms by (simp add: fuzzy_body_def get_pixel_ok)

lemma fuzzy_loop_fold:
  assumes "image_ok a" "image_ok b" "width a = width b" "height a = height b"
  shows "for_loop (range32 (height a))
           (\<lambda>y. for_loop (range32 (width a)) (fuzzy_body a b t y)) s
         = Inr (fold (\<lambda>(p, q). fuzzy_step t p q) (pixel_pairs a b) s)"
proof -
  let ?f = "\<lambda>y x. fuzzy_step t (pixel_at a x y) (pixel_at b x y)"
  have inner: "for_loop (range32 (width a)) (fuzzy_body a b t (of_nat y)) s'
                 = Inr (fold (?f y) [0..<unat (width a)] s')"
    if "y \<in> set [0..<unat (height a)]" for y s'
    unfolding range32_def using that assms
    by (intro for_loop_map_fold) (simp add: fuzzy_body_ok)
  have "for_loop (range32 (height a))
           (\<lambda>y. for_loop (range32 (width a)) (fuzzy_body a b t y)) s
        = Inr (fold (\<lambda>y. fold (?f y) [0..<unat (width a)]) [0..<unat (height a)] s)"
    unfolding range32_def by (rule for_loop_map_fold) (use inner in \<open>simp add: range32_def\<close>)
  also have "fold (\<lambda>y. fold (?f y) [0..<unat (width a)]) [0..<unat (height a)] s
        = fold (\<lambda>(y, x). ?f y x) (positions a) s"
    by (simp add: fold_product positions_def)
  also have "\<dots> = fold (\<lambda>(p, q). fuzzy_step t p q) (pixel_pairs a b) s"
    by (simp add: pixel_pairs_def fold_map comp_def case_prod_unfold)
  finally show ?thesis .
qed

lemma Max_channel_diffs:
  "Max (set (channel_diffs p q)) = pixel_max_diff p q"
  by (simp add: channel_diffs_def pixel_max_diff_def Let_def max.commute max.left_commute max.assoc)

lemma sum_channel_diffs:
  "sum_list (channel_diffs p q) =
     channel_diff (red p) (red q) + channel_diff (green p) (green q)
     + channel_diff (blue p) (blue q) + channel_diff (alpha p) (alpha q)"
  by (simp add: channel_diffs_def)

lemma fuzzy_step_fields:
  "total_pixels (result (fuzzy_step t p q s)) = total_pixels (result s)"
  "different_pixels (result (fuzzy_step t p q s))
     = different_pixels (result s) + (if exceeds t (p, q) then 1 else 0)"
  "max_channel_diff (result (fuzzy_step t p q s))
     = fold max (map real_of_int (channel_diffs p q)) (max_channel_diff (result s))"
  "total_diff (fuzzy_step t p q s) = total_diff s + real_of_int (sum_list (channel_diffs p q))"
  "channel_count (fuzzy_step t p q s) = channel_count s + 4"
  by (simp_all add: fuzzy_step_def Let_def exceeds_def Max_channel_diffs sum_channel_diffs
      pixel_max_diff_def) (simp add: channel_diffs_def of_int_max max.commute max.left_commute max.assoc)

lemma fuzzy_fold_fields:
  fixes pps :: "(Pixel \<times> Pixel) list"
  defines "F \<equiv> \<lambda>t s. fold (\<lambda>(p, q). fuzzy_step t p q) pps s"
  shows "total_pixels (result (F t s)) = total_pixels (result s)"
    and "different_pixels (result (F t s))
          = different_pixels (result s) + of_nat (length (filter (exceeds t) pps))"
    and "max_channel_diff (result (F t s))
          = fold max (map real_of_int (concat (map (\<lambda>(p, q). channel_diffs p q) pps)))
              (max_channel_diff (result s))"
    and "total_diff (F t s)
          = total_diff s + real_of_int (sum_list (concat (map (\<lambda>(p, q). channel_diffs p q) pps)))"
    and "channel_count (F t s) = channel_count s + of_nat (4 * length pps)"
  unfolding F_def
proof (induction pps arbitrary: s)
  case Nil
  {case 1 show ?case by simp next
   case 2 show ?case by simp next
   case 3 show ?case by simp next
   case 4 show ?case by simp next
   case 5 show ?case by simp}
next
  case (Cons pq pps)
  obtain p q where pq: "pq = (p, q)" by (cases pq)
  {case 1 show ?case by (simp add: pq Cons.IH fuzzy_step_fields) next
   case 2 show ?case by (simp add: pq Cons.IH fuzzy_step_fields) next
   case 3 show ?case by (simp add: pq Cons.IH fuzzy_step_fields) next
   case 4 show ?case by (simp add: pq Cons.IH fuzzy_step_fields) next
   case 5 show ?case by (simp add: pq Cons.IH fuzzy_step_fields)}
qed

lemma length_pixel_pairs:
  "length (pixel_pairs a b) = unat (width a) * unat (height a)"
  by (simp add: pixel_pairs_def positions_def mult.commute)

lemma length_concat_channel_diffs:
  "length (concat (map (\<lambda>(p, q). channel_diffs p q) pps)) = 4 * length pps"
  by (induction pps) (auto simp: channel_diffs_def)

lemma length_all_channel_diffs:
  "length (all_channel_diffs a b) = 4 * (unat (width a) * unat (height a))"
  by (simp add: all_channel_diffs_def length_concat_channel_diffs length_pixel_pairs)

lemma channel_diff_nonneg: "0 \<le> channel_diff c d"
  by (simp add: channel_diff_def)

lemma channel_diffs_nonneg: "d \<in> set (channel_diffs p q) \<Longrightarrow> 0 \<le> d"
  by (auto simp: channel_diffs_def channel_diff_nonneg)

lemma all_channel_diffs_nonneg: "d \<in> set (all_channel_diffs a b) \<Longrightarrow> 0 \<le> d"
  by (auto simp: all_channel_diffs_def dest: channel_diffs_nonneg)

lemma fold_max_nonneg:
  fixes ds :: "int list"
  assumes "ds \<noteq> []" "\<And>d. d \<in> set ds \<Longrightarrow> 0 \<le> d"
  shows "fold max (map real_of_int ds) 0 = real_of_int (Max (set ds))"
proof -
  have "fold max (map real_of_int ds) 0 = Max (set (0 # map real_of_int ds))"
    by (simp only: Max.set_eq_fold)
  also have "\<dots> = Max (insert (real_of_int 0) (real_of_int ` set ds))"
    by simp
  also have "\<dots> = Max (real_of_int ` insert 0 (set ds))"
    by simp
  also have "\<dots> = real_of_int (Max (insert 0 (set ds)))"
    by (rule mono_Max_commute [symmetric]) (auto simp: mono_def)
  also have "Max (insert 0 (set ds)) = Max (set ds)"
  proof -
    obtain d where "d \<in> set ds" using assms(1) by (cases ds) auto
    then have "0 \<le> Max (set ds)" using assms(2) by (meson List.finite_set Max_ge order_trans)
    then show ?thesis using assms(1) by (simp add: max_def)
  qed
  finally show ?thesis .
qed

lemma fuzzy_loop_result:
  assumes "image_ok a" "image_ok b" "width a = width b" "height a = height b" "\<not> empty a"
  shows "fuzzy a b t = Inr (fuzzy_finish t (fold (\<lambda>(p, q). fuzzy_step t p q) (pixel_pairs a b) (fuzzy_init a)))"
proof -
  have nb: "\<not> empty b" using assms by (simp add: empty_def image_ok_def flip: length_0_conv)
  note loop = fuzzy_loop_fold [OF assms(1-4)]
  show ?thesis
    by (simp add: fuzzy_def loop fuzzy_init_def assms(3,4)[symmetric] assms(5) nb)
qed

lemma fuzzy_fields:
  assumes "image_ok a" "image_ok b" "width a = width b" "height a = height b" "\<not> empty a"
  shows "\<exists>res. fuzzy a b t = Inr res
     \<and> unat (different_pixels res) = length (filter (exceeds t) (pixel_pairs a b))
     \<and> unat (total_pixels res) = unat (width a) * unat (height a)
     \<and> 0 < unat (total_pixels res)
     \<and> difference_percent res
         = 100 * real (unat (different_pixels res)) / real (unat (total_pixels res))
     \<and> max_channel_diff res = real_of_int (Max (set (all_channel_diffs a b)))
     \<and> avg_channel_diff res
         = real_of_int (sum_list (all_channel_diffs a b)) / real (length (all_channel_diffs a b))
     \<and> match res = (different_pixels res = 0)"
proof -
  define n where "n = unat (width a) * unat (height a)"
  define k where "k = length (filter (exceeds t) (pixel_pairs a b))"
  define S where "S = fold (\<lambda>(p, q). fuzzy_step t p q) (pixel_pairs a b) (fuzzy_init a)"
  have n4: "n * 4 < 2 ^ 32" and len: "length (data a) = n * 4"
    using assms(1) by (simp_all add: image_ok_def n_def)
  have npos: "0 < n" using assms(5) len by (cases n) (simp_all add: empty_def)
  have kn: "k \<le> n"
    using length_filter_le [of "exceeds t" "pixel_pairs a b"]
    by (simp add: k_def n_def length_pixel_pairs)
  have dp: "different_pixels (result S) = of_nat k"
    by (simp add: S_def k_def fuzzy_fold_fields fuzzy_init_def CompareResult_default_def)
  have udp: "unat (different_pixels (result S)) = k"
    using kn n4 by (simp add: dp unat_of_nat)
  have tp: "total_pixels (result S) = width a * height a"
    by (simp add: S_def fuzzy_fold_fields fuzzy_init_def CompareResult_default_def)
  have utp: "unat (total_pixels (result S)) = n"
  proof -
    have "unat (width a) * unat (height a) < 2 ^ LENGTH(32)"
      using n4 by (simp add: n_def mult.commute)
    then show ?thesis
      unfolding tp n_def by (rule unat_mult_lem [THEN iffD1])
  qed
  have tpos: "0 < total_pixels (result S)"
    using npos utp by (simp add: word_less_nat_alt)
  define m where "m = 4 * n"
  have cc: "channel_count S = of_nat m"
    by (simp add: S_def fuzzy_fold_fields fuzzy_init_def length_pixel_pairs n_def m_def)
  have "m < 2 ^ 64"
    using n4 by (simp add: m_def)
  then have "unat (of_nat m :: u64) = m"
    by (simp add: unat_of_nat)
  then have ucc: "unat (channel_count S) = 4 * n"
    by (simp add: cc m_def)
  have cpos: "0 < channel_count S"
    using npos ucc by (simp add: word_less_nat_alt)
  have ne: "all_channel_diffs a b \<noteq> []"
    using npos length_all_channel_diffs [of a b] by (auto simp: n_def)
  have mx: "max_channel_diff (result S) = real_of_int (Max (set (all_channel_diffs a b)))"
    using fold_max_nonneg [OF ne all_channel_diffs_nonneg]
    by (simp add: S_def fuzzy_fold_fields fuzzy_init_def CompareResult_default_def
        all_channel_diffs_def)
  have td: "total_diff S = real_of_int (sum_list (all_channel_diffs a b))"
    by (simp add: S_def fuzzy_fold_fields fuzzy_init_def all_channel_diffs_def)
  define res where "res = fuzzy_finish t S"
  have 0: "fuzzy a b t = Inr res"
    unfolding S_def res_def using assms by (rule fuzzy_loop_result)
  have 1: "unat (different_pixels res) = length (filter (exceeds t) (pixel_pairs a b))"
    using udp by (auto simp: res_def fuzzy_finish_def Let_def k_def)
  have 2: "unat (total_pixels res) = unat (width a) * unat (height a)"
    using utp by (auto simp: res_def fuzzy_finish_def Let_def n_def)
  have 3: "0 < unat (total_pixels res)"
    using npos 2 by (simp add: n_def)
  have 4: "difference_percent res
         = 100 * real (unat (different_pixels res)) / real (unat (total_pixels res))"
    using tpos by (auto simp: res_def fuzzy_finish_def Let_def)
  have 5: "max_channel_diff res = real_of_int (Max (set (all_channel_diffs a b)))"
    using mx by (auto simp: res_def fuzzy_finish_def Let_def)
  have 6: "avg_channel_diff res
     = real_of_int (sum_list (all_channel_diffs a b)) / real (length (all_channel_diffs a b))"
    using cpos by (auto simp: res_def fuzzy_finish_def Let_def td ucc length_all_channel_diffs n_def)
  have 7: "match res = (different_pixels res = 0)"
    by (auto simp: res_def fuzzy_finish_def Let_def)
  from 0 1 2 3 4 5 6 7 show ?thesis
    by blast
qed

section \<open>What fuzzy computes on non-empty images of equal size\<close>

text \<open>
  Claim C2. For well-formed, non-empty images of equal dimensions and a tolerance
  \<open>t \<ge> 0\<close>, \<open>fuzzy\<close> returns a result in which: \<open>different_pixels\<close> is the number of
  positions where the largest of the four absolute channel differences is strictly
  greater than \<open>t\<close>; \<open>total_pixels\<close> is width times height; \<open>difference_percent\<close> is
  \<open>100 * different_pixels / total_pixels\<close>; \<open>max_channel_diff\<close> and
  \<open>avg_channel_diff\<close> are the maximum and the mean of the channel differences of all
  pixels, different or not; and \<open>match\<close> says that \<open>different_pixels\<close> is zero.
\<close>

theorem fuzzy_counts_and_aggregates:
  assumes "image_ok a" "image_ok b" "width a = width b" "height a = height b"
    and "\<not> empty a" "0 \<le> t"
  shows "\<exists>res. fuzzy a b t = Inr res
     \<and> unat (different_pixels res)
         = length (filter (\<lambda>(p, q). t < Max (set (channel_diffs p q))) (pixel_pairs a b))
     \<and> unat (total_pixels res) = unat (width a) * unat (height a)
     \<and> difference_percent res
         = 100 * real (unat (different_pixels res)) / real (unat (total_pixels res))
     \<and> max_channel_diff res = real_of_int (Max (set (all_channel_diffs a b)))
     \<and> avg_channel_diff res
         = real_of_int (sum_list (all_channel_diffs a b)) / real (length (all_channel_diffs a b))
     \<and> match res = (different_pixels res = 0)"
proof -
  have "exceeds t = (\<lambda>(p, q). t < Max (set (channel_diffs p q)))"
    by (simp add: exceeds_def fun_eq_iff)
  with fuzzy_fields [OF assms(1-5), of t] show ?thesis
    by auto
qed

lemma pixel_pairs_two:
  "pixel_pairs two_pixels_a two_pixels_b =
     [(\<lparr>red = 0, green = 0, blue = 0, alpha = 255\<rparr>, \<lparr>red = 0, green = 0, blue = 1, alpha = 255\<rparr>),
      (\<lparr>red = 10, green = 20, blue = 30, alpha = 255\<rparr>,
       \<lparr>red = 10, green = 25, blue = 30, alpha = 250\<rparr>)]"
  by (simp add: pixel_pairs_def positions_def pixel_at_def two_pixels_a_def two_pixels_b_def upt_rec)

theorem fuzzy_counts_and_aggregates_witness:
  "\<exists>res. fuzzy two_pixels_a two_pixels_b 4 = Inr res
     \<and> unat (different_pixels res) = 1 \<and> unat (total_pixels res) = 2
     \<and> difference_percent res = 50 \<and> max_channel_diff res = 5
     \<and> avg_channel_diff res = 11 / 8 \<and> \<not> match res"
proof -
  have ok: "image_ok two_pixels_a" "image_ok two_pixels_b"
    "width two_pixels_a = width two_pixels_b" "height two_pixels_a = height two_pixels_b"
    "\<not> empty two_pixels_a" "(0 :: int) \<le> 4"
    by (simp_all add: image_ok_def empty_def two_pixels_a_def two_pixels_b_def)
  have w: "unat (width two_pixels_a) = 2" "unat (height two_pixels_a) = 1"
    by (simp_all add: two_pixels_a_def)
  have d: "all_channel_diffs two_pixels_a two_pixels_b = [0, 0, 1, 0, 0, 5, 0, 5]"
    by (simp add: all_channel_diffs_def pixel_pairs_two channel_diffs_def channel_diff_def)
  have f: "filter (\<lambda>(p, q). 4 < Max (set (channel_diffs p q)))
             (pixel_pairs two_pixels_a two_pixels_b)
           = [(\<lparr>red = 10, green = 20, blue = 30, alpha = 255\<rparr>,
               \<lparr>red = 10, green = 25, blue = 30, alpha = 250\<rparr>)]"
    by (simp add: pixel_pairs_two channel_diffs_def channel_diff_def)
  from fuzzy_counts_and_aggregates [OF ok] obtain res where
    res: "fuzzy two_pixels_a two_pixels_b 4 = Inr res"
      "unat (different_pixels res)
         = length [(\<lparr>red = 10, green = 20, blue = 30, alpha = 255\<rparr>,
                    \<lparr>red = 10, green = 25, blue = 30, alpha = (250 :: u8)\<rparr>)]"
      "unat (total_pixels res) = 2 * 1"
      "difference_percent res
         = 100 * real (unat (different_pixels res)) / real (unat (total_pixels res))"
      "max_channel_diff res = real_of_int (Max (set [0, 0, 1, 0, 0, 5, 0, 5]))"
      "avg_channel_diff res = real_of_int (sum_list [0, 0, 1, 0, 0, 5, 0, 5])
         / real (length [0, 0, 1, 0, 0, 5, 0, 5 :: int])"
      "match res = (different_pixels res = 0)"
    unfolding d f w by blast
  have "difference_percent res = 50"
    unfolding res(4) res(2) res(3) by simp
  moreover have "different_pixels res \<noteq> 0"
    using res(2) by auto
  ultimately show ?thesis
    using res(1,2,3,5,6,7) by simp
qed

section \<open>Tolerance 255 and the percentage policy\<close>

lemma channel_diff_le_255: "channel_diff c d \<le> 255"
proof -
  have "uint c < 256" "uint d < 256" "0 \<le> uint c" "0 \<le> uint d"
    using uint_bounded [of c] uint_bounded [of d] by simp_all
  then show ?thesis
    unfolding channel_diff_def by linarith
qed

lemma no_pair_exceeds_255: "\<not> exceeds 255 pq"
proof -
  have "Max (set (channel_diffs (fst pq) (snd pq))) \<le> 255"
    by (simp add: channel_diffs_def channel_diff_le_255)
  then show ?thesis
    by (simp add: exceeds_def)
qed

lemma fuzzy_255:
  assumes "image_ok a" "image_ok b"
  shows "\<exists>res. fuzzy a b 255 = Inr res \<and> different_pixels res = 0
           \<and> difference_percent res = 0"
proof (cases "width a = width b \<and> height a = height b")
  case False
  then show ?thesis
    by (auto simp: fuzzy_def CompareResult_default_def)
next
  case dims: True
  show ?thesis
  proof (cases "empty a \<or> empty b")
    case True
    with dims show ?thesis
      by (simp add: fuzzy_def CompareResult_default_def)
  next
    case False
    with dims assms obtain res where res: "fuzzy a b 255 = Inr res"
      "unat (different_pixels res) = length (filter (exceeds 255) (pixel_pairs a b))"
      "difference_percent res
         = 100 * real (unat (different_pixels res)) / real (unat (total_pixels res))"
      using fuzzy_fields [of a b 255] by blast
    have "filter (exceeds 255) (pixel_pairs a b) = []"
      by (simp add: no_pair_exceeds_255)
    with res(2) have z: "unat (different_pixels res) = 0"
      by simp
    then have "different_pixels res = 0"
      by (simp add: unat_eq_0)
    with res(1,3) z show ?thesis
      by simp
  qed
qed

lemma fuzzy_percent_255:
  assumes "fuzzy a b 255 = Inr res" "different_pixels res = 0"
  shows "fuzzy_percent a b m = Inr (res\<lparr>match := (difference_percent res \<le> m)\<rparr>)"
  using assms by (simp add: fuzzy_percent_def Let_def)

text \<open>
  Claim C3. For well-formed images \<open>a\<close> and \<open>b\<close> of any dimensions and any threshold
  \<open>max_diff_percent \<ge> 0\<close>, \<open>fuzzy_percent\<close> returns a result whose \<open>match\<close> is true:
  the run at tolerance 255 counts no pixel as different, so \<open>difference_percent\<close> is
  0 (as it is after a dimension mismatch) when \<open>match\<close> is overridden.
\<close>

theorem fuzzy_percent_always_matches:
  assumes "image_ok a" "image_ok b" "0 \<le> m"
  shows "\<exists>res. fuzzy_percent a b m = Inr res \<and> match res
           \<and> different_pixels res = 0 \<and> difference_percent res = 0"
proof -
  from assms(1,2) obtain res where res: "fuzzy a b 255 = Inr res"
    "different_pixels res = 0" "difference_percent res = 0"
    using fuzzy_255 by blast
  then have "fuzzy_percent a b m = Inr (res\<lparr>match := (difference_percent res \<le> m)\<rparr>)"
    by (simp add: fuzzy_percent_255)
  with res assms(3) show ?thesis
    by simp
qed

theorem fuzzy_percent_always_matches_witness:
  "image_ok black_1x1 \<and> image_ok white_1x1 \<and> (0 :: real) \<le> 0
   \<and> (\<exists>res. fuzzy_percent black_1x1 white_1x1 0 = Inr res \<and> match res
           \<and> different_pixels res = 0 \<and> difference_percent res = 0)"
proof -
  have ok: "image_ok black_1x1" "image_ok white_1x1"
    by (simp_all add: image_ok_def black_1x1_def white_1x1_def)
  with fuzzy_percent_always_matches [of black_1x1 white_1x1 0] show ?thesis
    by simp
qed

lemma range32_1: "range32 1 = [0]"
  by (simp add: range32_def)

lemmas fuzzy_eval = fuzzy_percent_def fuzzy_def empty_def range32_1 fuzzy_body_def get_pixel_def
  fuzzy_step_def fuzzy_init_def fuzzy_finish_def channel_diff_def CompareResult_default_def Let_def

text \<open>
  Claim C1. \<open>fuzzy_percent\<close> is meant to bound the share of differing pixels. On a
  black and a white image of one pixel, where every pixel differs (\<open>fuzzy\<close> at
  tolerance 0 reports 1 of 1, that is 100 percent), \<open>fuzzy_percent\<close> with threshold 0
  nevertheless reports \<open>different_pixels = 0\<close>, \<open>difference_percent = 0\<close> and a match.
\<close>

theorem fuzzy_percent_misses_differences:
  "fuzzy black_1x1 white_1x1 0 =
     Inr \<lparr>match = False, different_pixels = 1, total_pixels = 1,
        difference_percent = 100, max_channel_diff = 255, avg_channel_diff = 765 / 4,
        message = [U32 1, Str '' pixels differ ('', Fixed 100, Str ''%), '',
           Str ''max channel diff: '', Fixed 255]\<rparr>
   \<and> fuzzy_percent black_1x1 white_1x1 0 =
     Inr \<lparr>match = True, different_pixels = 0, total_pixels = 1,
        difference_percent = 0, max_channel_diff = 255, avg_channel_diff = 765 / 4,
        message = [Str ''Images match'', Str '' (within tolerance '', SInt 255, Str '')'']\<rparr>"
  by (simp add: fuzzy_eval black_1x1_def white_1x1_def)

theorem fuzzy_percent_misses_differences_witness:
  "\<exists>r0 r. fuzzy black_1x1 white_1x1 0 = Inr r0 \<and> unat (different_pixels r0) = 1
     \<and> fuzzy_percent black_1x1 white_1x1 0 = Inr r \<and> match r \<and> different_pixels r = 0"
  using fuzzy_percent_misses_differences by simp

section \<open>Monotonicity in the tolerance\<close>

lemma filter_exceeds_mono:
  assumes "t1 \<le> t2"
  shows "length (filter (exceeds t2) pps) \<le> length (filter (exceeds t1) pps)"
  using assms by (induction pps) (auto simp: exceeds_def)

text \<open>
  Claim C10. For well-formed images \<open>a\<close> and \<open>b\<close> and tolerances \<open>t1 \<le> t2\<close>, both
  calls of \<open>fuzzy\<close> return, and \<open>different_pixels\<close> at \<open>t2\<close> is at most
  \<open>different_pixels\<close> at \<open>t1\<close>.
\<close>

theorem different_pixels_antimono:
  assumes "image_ok a" "image_ok b" "t1 \<le> t2"
  shows "\<exists>r1 r2. fuzzy a b t1 = Inr r1 \<and> fuzzy a b t2 = Inr r2
           \<and> different_pixels r2 \<le> different_pixels r1"
proof (cases "width a = width b \<and> height a = height b \<and> \<not> empty a")
  case True
  with assms obtain r1 r2 where
    r1: "fuzzy a b t1 = Inr r1"
      "unat (different_pixels r1) = length (filter (exceeds t1) (pixel_pairs a b))" and
    r2: "fuzzy a b t2 = Inr r2"
      "unat (different_pixels r2) = length (filter (exceeds t2) (pixel_pairs a b))"
    using fuzzy_fields [of a b t1] fuzzy_fields [of a b t2] by blast
  have "unat (different_pixels r2) \<le> unat (different_pixels r1)"
    unfolding r1(2) r2(2) using assms(3) by (rule filter_exceeds_mono)
  then have "different_pixels r2 \<le> different_pixels r1"
    by (simp add: word_le_nat_alt)
  with r1(1) r2(1) show ?thesis
    by blast
next
  case False
  then show ?thesis
    by (auto simp: fuzzy_def CompareResult_default_def)
qed

theorem different_pixels_antimono_witness:
  "image_ok black_1x1 \<and> image_ok white_1x1 \<and> (0 :: int) \<le> 255
   \<and> (\<exists>r1 r2. fuzzy black_1x1 white_1x1 0 = Inr r1 \<and> fuzzy black_1x1 white_1x1 255 = Inr r2
           \<and> different_pixels r2 \<le> different_pixels r1)"
proof -
  have ok: "image_ok black_1x1" "image_ok white_1x1"
    by (simp_all add: image_ok_def black_1x1_def white_1x1_def)
  with different_pixels_antimono [of black_1x1 white_1x1 0 255] show ?thesis
    by simp
qed

section \<open>Loops that write every pixel of a canvas\<close>

lemma set_pixel_ok:
  assumes "image_ok img" "x < unat (width img)" "y < unat (height img)"
  shows "set_pixel img (of_nat x) (of_nat y) p = Inr (put_pixel img x y p)"
proof -
  have o: "unat ((of_nat y * width img + of_nat x) * 4 :: u32) = (y * unat (width img) + x) * 4"
    using assms by (intro offset_unat[where H = "unat (height img)"]) (simp_all add: image_ok_def)
  have b: "(y * unat (width img) + x) * 4 + 3 < length (data img)"
    using assms index_bound[of x "unat (width img)" y "unat (height img)"] by (simp add: image_ok_def)
  have "of_nat x < width img" "of_nat y < height img"
    using assms by (simp_all add: of_nat_less32)
  then show ?thesis
    using o b by (simp add: set_pixel_def put_pixel_def Let_def not_le[symmetric] del: not_le)
qed

lemma same_shape_put: "same_shape d0 d \<Longrightarrow> same_shape d0 (put_pixel d x y p)"
  by (auto simp: same_shape_def put_pixel_def image_ok_def Let_def)

lemma same_shape_refl: "image_ok d0 \<Longrightarrow> same_shape d0 d0"
  by (simp add: same_shape_def)

lemma cell_distinct:
  fixes W x y x' y' :: nat
  assumes "x < W" "x' < W" "(x, y) \<noteq> (x', y')"
  shows "y * W + x \<noteq> y' * W + x'"
proof
  assume e: "y * W + x = y' * W + x'"
  have "(y * W + x) div W = y" "(y' * W + x') div W = y'"
    using assms by simp_all
  with e have "y = y'" by simp
  with e have "x = x'" by simp
  with \<open>y = y'\<close> assms(3) show False by simp
qed

lemma pixel_at_put:
  assumes "image_ok d" "x < unat (width d)" "y < unat (height d)"
    "x' < unat (width d)" "y' < unat (height d)"
  shows "pixel_at (put_pixel d x' y' p) x y = (if (x, y) = (x', y') then p else pixel_at d x y)"
proof -
  define n where "n = y * unat (width d) + x"
  define n' where "n' = y' * unat (width d) + x'"
  have b: "n' * 4 + 3 < length (data d)"
    using assms index_bound[of x' "unat (width d)" y' "unat (height d)"]
    by (simp add: image_ok_def n'_def)
  show ?thesis
  proof (cases "(x, y) = (x', y')")
    case True
    then have "n = n'" by (simp add: n_def n'_def)
    with b show ?thesis
      using True by (simp add: pixel_at_def put_pixel_def Let_def n'_def [symmetric])
  next
    case False
    then have "n \<noteq> n'"
      unfolding n_def n'_def using assms(2,4) by (intro cell_distinct) simp_all
    then have "n * 4 + k \<noteq> n' * 4 + k'" if "k < 4" "k' < 4" for k k'
      using that by arith
    from this [of 0 0] this [of 0 1] this [of 0 2] this [of 0 3]
      this [of 1 0] this [of 1 1] this [of 1 2] this [of 1 3]
      this [of 2 0] this [of 2 1] this [of 2 2] this [of 2 3]
      this [of 3 0] this [of 3 1] this [of 3 2] this [of 3 3]
    show ?thesis
      using False
      by (auto simp: pixel_at_def put_pixel_def Let_def n_def [symmetric] n'_def [symmetric])
  qed
qed

lemma for_loop_map_fold_inv:
  assumes "I s"
    and "\<And>i s. i \<in> set xs \<Longrightarrow> I s \<Longrightarrow> body (g i) s = Inr (f i s) \<and> I (f i s)"
  shows "for_loop (map g xs) body s = Inr (fold f xs s) \<and> I (fold f xs s)"
  using assms by (induction xs arbitrary: s) simp_all

lemma fold_put_pixel:
  assumes "same_shape d0 d"
    and "\<And>c. c \<in> set cs \<Longrightarrow> snd c < unat (width d0) \<and> fst c < unat (height d0)"
    and "x < unat (width d0)" "y < unat (height d0)"
  shows "pixel_at (fold (\<lambda>(y, x) d. put_pixel d x y (F x y)) cs d) x y
           = (if (y, x) \<in> set cs then F x y else pixel_at d x y)"
  using assms(1,2)
proof (induction cs arbitrary: d)
  case Nil
  then show ?case by simp
next
  case (Cons c cs)
  obtain y' x' where c: "c = (y', x')" by (cases c)
  have r: "x' < unat (width d0)" "y' < unat (height d0)"
    using Cons.prems(2) [of c] by (simp_all add: c)
  have s: "same_shape d0 (put_pixel d x' y' (F x' y'))"
    using Cons.prems(1) by (rule same_shape_put)
  have "pixel_at (put_pixel d x' y' (F x' y')) x y
          = (if (x, y) = (x', y') then F x' y' else pixel_at d x y)"
    using Cons.prems(1) r assms(3,4) by (intro pixel_at_put) (simp_all add: same_shape_def)
  with Cons.IH [OF s] Cons.prems(2) show ?case
    by (auto simp: c)
qed

lemma render_loops:
  assumes ok: "image_ok d0"
    and body: "\<And>x y d. x < unat (width d0) \<Longrightarrow> y < unat (height d0) \<Longrightarrow> same_shape d0 d
        \<Longrightarrow> body (of_nat y) (of_nat x) d = set_pixel d (of_nat x) (of_nat y) (F x y)"
  shows "\<exists>d. for_loop (range32 (height d0)) (\<lambda>y. for_loop (range32 (width d0)) (body y)) d0
               = Inr d
           \<and> same_shape d0 d
           \<and> (\<forall>x < unat (width d0). \<forall>y < unat (height d0). pixel_at d x y = F x y)"
proof -
  let ?put = "\<lambda>y x d. put_pixel d x y (F x y)"
  let ?W = "unat (width d0)" and ?H = "unat (height d0)"
  have cell: "body (of_nat y) (of_nat x) d = Inr (?put y x d) \<and> same_shape d0 (?put y x d)"
    if "x < ?W" "y < ?H" "same_shape d0 d" for x y d
  proof -
    have "set_pixel d (of_nat x) (of_nat y) (F x y) = Inr (?put y x d)"
      using that by (intro set_pixel_ok) (simp_all add: same_shape_def)
    with body [OF that] same_shape_put [OF that(3)] show ?thesis
      by simp
  qed
  have row: "for_loop (range32 (width d0)) (body (of_nat y)) d = Inr (fold (?put y) [0..<?W] d)
               \<and> same_shape d0 (fold (?put y) [0..<?W] d)"
    if "y \<in> set [0..<?H]" "same_shape d0 d" for y d
    unfolding range32_def
    by (rule for_loop_map_fold_inv [where I = "same_shape d0"]) (use that cell in simp_all)
  have "for_loop (range32 (height d0)) (\<lambda>y. for_loop (range32 (width d0)) (body y)) d0
          = Inr (fold (\<lambda>y. fold (?put y) [0..<?W]) [0..<?H] d0)
        \<and> same_shape d0 (fold (\<lambda>y. fold (?put y) [0..<?W]) [0..<?H] d0)"
    unfolding range32_def
    by (rule for_loop_map_fold_inv [where I = "same_shape d0"])
      (use row ok in \<open>simp_all add: same_shape_refl range32_def\<close>)
  moreover have "fold (\<lambda>y. fold (?put y) [0..<?W]) [0..<?H] d0
      = fold (\<lambda>(y, x). ?put y x) (List.product [0..<?H] [0..<?W]) d0"
    by (simp add: fold_product)
  moreover have "pixel_at (fold (\<lambda>(y, x). ?put y x) (List.product [0..<?H] [0..<?W]) d0) x y
      = F x y" if "x < ?W" "y < ?H" for x y
  proof -
    have "snd c < ?W \<and> fst c < ?H" if "c \<in> set (List.product [0..<?H] [0..<?W])" for c
      using that by auto
    then have "pixel_at (fold (\<lambda>(y, x). ?put y x) (List.product [0..<?H] [0..<?W]) d0) x y
      = (if (y, x) \<in> set (List.product [0..<?H] [0..<?W]) then F x y else pixel_at d0 x y)"
      using same_shape_refl [OF ok] \<open>x < ?W\<close> \<open>y < ?H\<close>
      by (intro fold_put_pixel [where ?d0.0 = d0]) blast+
    with that show ?thesis
      by simp
  qed
  ultimately show ?thesis
    by auto
qed

section \<open>Diff renderer\<close>

lemma image_ok_new:
  assumes "unat w * unat h * 4 < 2 ^ 32"
  shows "image_ok (Image_new w h)"
proof -
  have "unat w * unat h < 2 ^ LENGTH(32)"
    using assms by (simp add: mult.commute)
  then have wh: "unat (w * h) = unat w * unat h"
    by (rule unat_mult_lem [THEN iffD1])
  have "unat (w * h) * unat (4 :: u32) < 2 ^ LENGTH(32)"
    using assms by (simp add: wh)
  then have "unat (w * h * 4) = unat (w * h) * unat (4 :: u32)"
    by (rule unat_mult_lem [THEN iffD1])
  with wh assms show ?thesis
    by (simp add: image_ok_def Image_new_def)
qed

lemma of_nat_less32_iff:
  assumes "n < 2 ^ 32"
  shows "(of_nat n :: u32) < w \<longleftrightarrow> n < unat w"
  using assms by (simp add: word_less_nat_alt unat_of_nat)

lemma generate_diff_body_ok:
  assumes "image_ok a" "image_ok b" "x < 2 ^ 32" "y < 2 ^ 32"
  shows "generate_diff_body a b t (of_nat y) (of_nat x) d
           = set_pixel d (of_nat x) (of_nat y) (expected_diff_pixel a b t x y)"
proof -
  let ?in_a = "x < unat (width a) \<and> y < unat (height a)"
  let ?in_b = "x < unat (width b) \<and> y < unat (height b)"
  have lt: "(of_nat x :: u32) < width a \<longleftrightarrow> x < unat (width a)"
    "(of_nat y :: u32) < height a \<longleftrightarrow> y < unat (height a)"
    "(of_nat x :: u32) < width b \<longleftrightarrow> x < unat (width b)"
    "(of_nat y :: u32) < height b \<longleftrightarrow> y < unat (height b)"
    using assms(3,4) by (simp_all add: of_nat_less32_iff)
  show ?thesis
  proof (cases "?in_a \<and> ?in_b")
    case False
    then show ?thesis
      by (auto simp: generate_diff_body_def expected_diff_pixel_def lt Let_def)
  next
    case True
    define p where "p = pixel_at a x y"
    define q where "q = pixel_at b x y"
    define m where "m = Max (set (channel_diffs p q))"
    have g: "get_pixel a (of_nat x) (of_nat y) = Inr p" "get_pixel b (of_nat x) (of_nat y) = Inr q"
      using True assms(1,2) by (simp_all add: get_pixel_ok p_def q_def)
    have m: "max (max (max (channel_diff (red p) (red q)) (channel_diff (green p) (green q)))
               (channel_diff (blue p) (blue q))) (channel_diff (alpha p) (alpha q)) = m"
      by (simp add: m_def Max_channel_diffs pixel_max_diff_def)
    show ?thesis
      using True
      by (simp add: generate_diff_body_def expected_diff_pixel_def lt g m Let_def mult.commute
          p_def [symmetric] q_def [symmetric] m_def [symmetric])
  qed
qed

lemma generate_diff_char:
  assumes "image_ok a" "image_ok b"
    and "unat (max (width a) (width b)) * unat (max (height a) (height b)) * 4 < 2 ^ 32"
  shows "(max (width a) (width b) = 0 \<or> max (height a) (height b) = 0
            \<longrightarrow> generate_diff a b t = Inr Image_default)
       \<and> (max (width a) (width b) \<noteq> 0 \<and> max (height a) (height b) \<noteq> 0
            \<longrightarrow> (\<exists>d. generate_diff a b t = Inr d \<and> image_ok d
                  \<and> width d = max (width a) (width b) \<and> height d = max (height a) (height b)
                  \<and> (\<forall>x < unat (width d). \<forall>y < unat (height d).
                       get_pixel d (of_nat x) (of_nat y)
                         = Inr (expected_diff_pixel a b t x y))))"
proof -
  define w where "w = max (width a) (width b)"
  define h where "h = max (height a) (height b)"
  define d0 where "d0 = Image_new w h"
  have ok0: "image_ok d0"
    unfolding d0_def using assms(3) by (intro image_ok_new) (simp add: w_def h_def)
  have wh: "width d0 = w" "height d0 = h"
    by (simp_all add: d0_def Image_new_def)
  have body: "generate_diff_body a b t (of_nat y) (of_nat x) d
      = set_pixel d (of_nat x) (of_nat y) (expected_diff_pixel a b t x y)"
    if "x < unat (width d0)" "y < unat (height d0)" for x y d
  proof -
    have "x < 2 ^ 32" "y < 2 ^ 32"
      using that unsigned_less [of "width d0", where ?'a = nat]
        unsigned_less [of "height d0", where ?'a = nat] by simp_all
    with assms(1,2) show ?thesis
      by (rule generate_diff_body_ok)
  qed
  from render_loops [of d0 "generate_diff_body a b t" "expected_diff_pixel a b t", OF ok0 body]
  obtain d where d: "for_loop (range32 h) (\<lambda>y. for_loop (range32 w) (generate_diff_body a b t y)) d0
      = Inr d" "same_shape d0 d"
      "\<forall>x < unat w. \<forall>y < unat h. pixel_at d x y = expected_diff_pixel a b t x y"
    unfolding wh by blast
  have dims: "image_ok d" "width d = w" "height d = h"
    using d(2) by (simp_all add: same_shape_def wh)
  have "get_pixel d (of_nat x) (of_nat y) = Inr (expected_diff_pixel a b t x y)"
    if "x < unat w" "y < unat h" for x y
    using that d(3) dims by (simp add: get_pixel_ok)
  with d(1) dims show ?thesis
    by (auto simp: generate_diff_def Let_def w_def [symmetric] h_def [symmetric] d0_def)
qed

lemma nth_concat_replicate:
  assumes "k < n" "j < length xs"
  shows "concat (replicate n xs) ! (k * length xs + j) = xs ! j"
  using assms(1)
proof (induction n arbitrary: k)
  case 0
  then show ?case by simp
next
  case (Suc n)
  show ?case
  proof (cases k)
    case 0
    with assms(2) show ?thesis
      by (simp add: nth_append)
  next
    case (Suc k')
    with Suc.prems have "k' < n" by simp
    from Suc.IH [OF this] show ?thesis
      by (simp add: Suc nth_append add.assoc)
  qed
qed

lemma pixel_at_red_4x4:
  assumes "x < 4" "y < 4"
  shows "pixel_at red_4x4 x y = \<lparr>red = 255, green = 0, blue = 0, alpha = 255\<rparr>"
proof -
  have k: "y * 4 + x < 16"
    using assms by simp
  have w: "unat (width red_4x4) = 4"
    by (simp add: red_4x4_def)
  have n: "data red_4x4 ! ((y * 4 + x) * 4 + j) = [255, 0, 0, 255] ! j" if "j < 4" for j
    using nth_concat_replicate [OF k, of j "[255, 0, 0, 255 :: u8]"] that
    by (simp add: red_4x4_def algebra_simps)
  from n [of 0] n [of 1] n [of 2] n [of 3] show ?thesis
    unfolding pixel_at_def w by (simp add: Let_def)
qed

lemma expected_red_4x4:
  assumes "x < 4" "y < 4"
  shows "expected_diff_pixel red_4x4 red_4x4 0 x y = \<lparr>red = 127, green = 0, blue = 0, alpha = 255\<rparr>"
proof -
  have "unat (width red_4x4) = 4" "unat (height red_4x4) = 4"
    by (simp_all add: red_4x4_def)
  then show ?thesis
    using assms by (simp add: expected_diff_pixel_def pixel_at_red_4x4 channel_diffs_def channel_diff_def)
qed

text \<open>
  Claim C6, amended. For well-formed images whose common canvas fits the 32-bit size
  arithmetic, \<open>generate_diff\<close> returns the default \<open>0 x 0\<close> image when the larger width
  or the larger height is zero, and otherwise a canvas of the larger width and the
  larger height in which every pixel is the one specified by
  \<open>expected_diff_pixel\<close>: green, blue or black outside one or both images, a
  clamped red highlight where the largest channel difference strictly exceeds the
  tolerance, and the halved pixel of the first image (alpha 255) elsewhere.
\<close>

theorem generate_diff_canvas:
  assumes "image_ok a" "image_ok b"
    and "unat (max (width a) (width b)) * unat (max (height a) (height b)) * 4 < 2 ^ 32"
  shows "(max (width a) (width b) = 0 \<or> max (height a) (height b) = 0
            \<longrightarrow> generate_diff a b t = Inr Image_default)
       \<and> (max (width a) (width b) \<noteq> 0 \<and> max (height a) (height b) \<noteq> 0
            \<longrightarrow> (\<exists>d. generate_diff a b t = Inr d
                  \<and> width d = max (width a) (width b) \<and> height d = max (height a) (height b)
                  \<and> (\<forall>x < unat (width d). \<forall>y < unat (height d).
                       get_pixel d (of_nat x) (of_nat y)
                         = Inr (expected_diff_pixel a b t x y))))"
  using generate_diff_char [OF assms, of t] by blast

theorem generate_diff_canvas_witness:
  "(\<exists>d. generate_diff red_4x4 red_4x4 0 = Inr d \<and> width d = 4 \<and> height d = 4
      \<and> (\<forall>x < 4. \<forall>y < 4. get_pixel d (of_nat x) (of_nat y)
            = Inr \<lparr>red = 127, green = 0, blue = 0, alpha = 255\<rparr>))
   \<and> (\<exists>d. generate_diff black_1x1 two_pixels_b 0 = Inr d \<and> width d = 2 \<and> height d = 1
      \<and> get_pixel d 0 0 = Inr \<lparr>red = 255, green = 253, blue = 253, alpha = 255\<rparr>
      \<and> get_pixel d 1 0 = Inr \<lparr>red = 0, green = 255, blue = 0, alpha = 255\<rparr>)
   \<and> generate_diff (Image_new 0 5) (Image_new 0 0) 0 = Inr Image_default"
proof (intro conjI)
  have ok: "image_ok red_4x4"
    by (simp add: image_ok_def red_4x4_def length_concat sum_list_replicate)
  have wh: "width red_4x4 = 4" "height red_4x4 = 4"
    by (simp_all add: red_4x4_def)
  have fits: "unat (max (width red_4x4) (width red_4x4))
      * unat (max (height red_4x4) (height red_4x4)) * 4 < 2 ^ 32"
    by (simp add: wh)
  from generate_diff_canvas [OF ok ok fits, of 0]
  obtain d where d: "generate_diff red_4x4 red_4x4 0 = Inr d" "width d = 4" "height d = 4"
    "\<forall>x < unat (width d). \<forall>y < unat (height d).
       get_pixel d (of_nat x) (of_nat y) = Inr (expected_diff_pixel red_4x4 red_4x4 0 x y)"
    by (auto simp: wh)
  from d(4) have "\<forall>x < 4. \<forall>y < 4. get_pixel d (of_nat x) (of_nat y)
            = Inr \<lparr>red = 127, green = 0, blue = 0, alpha = 255\<rparr>"
    by (simp add: d(2,3) expected_red_4x4)
  with d(1-3) show "\<exists>d. generate_diff red_4x4 red_4x4 0 = Inr d \<and> width d = 4 \<and> height d = 4
      \<and> (\<forall>x < 4. \<forall>y < 4. get_pixel d (of_nat x) (of_nat y)
            = Inr \<lparr>red = 127, green = 0, blue = 0, alpha = 255\<rparr>)"
    by blast
next
  have ok: "image_ok black_1x1" "image_ok two_pixels_b"
    by (simp_all add: image_ok_def black_1x1_def two_pixels_b_def)
  have wh: "width black_1x1 = 1" "height black_1x1 = 1" "width two_pixels_b = 2"
    "height two_pixels_b = 1"
    by (simp_all add: black_1x1_def two_pixels_b_def)
  have fits: "unat (max (width black_1x1) (width two_pixels_b))
      * unat (max (height black_1x1) (height two_pixels_b)) * 4 < 2 ^ 32"
    by (simp add: wh)
  from generate_diff_canvas [OF ok fits, of 0]
  obtain d where d: "generate_diff black_1x1 two_pixels_b 0 = Inr d" "width d = 2" "height d = 1"
    "\<forall>x < unat (width d). \<forall>y < unat (height d).
       get_pixel d (of_nat x) (of_nat y) = Inr (expected_diff_pixel black_1x1 two_pixels_b 0 x y)"
    by (auto simp: wh)
  have e: "expected_diff_pixel black_1x1 two_pixels_b 0 0 0
             = \<lparr>red = 255, green = 253, blue = 253, alpha = 255\<rparr>"
    "expected_diff_pixel black_1x1 two_pixels_b 0 1 0
             = \<lparr>red = 0, green = 255, blue = 0, alpha = 255\<rparr>"
    by (simp_all add: expected_diff_pixel_def pixel_at_def channel_diffs_def channel_diff_def
        black_1x1_def two_pixels_b_def)
  have u: "unat (width d) = 2" "unat (height d) = 1"
    by (simp_all add: d(2,3))
  from d(4) [unfolded u, rule_format, of 0 0] d(4) [unfolded u, rule_format, of 1 0]
  have "get_pixel d 0 0 = Inr (expected_diff_pixel black_1x1 two_pixels_b 0 0 0)"
    "get_pixel d 1 0 = Inr (expected_diff_pixel black_1x1 two_pixels_b 0 1 0)"
    by simp_all
  with e d(1-3) show "\<exists>d. generate_diff black_1x1 two_pixels_b 0 = Inr d \<and> width d = 2 \<and> height d = 1
      \<and> get_pixel d 0 0 = Inr \<lparr>red = 255, green = 253, blue = 253, alpha = 255\<rparr>
      \<and> get_pixel d 1 0 = Inr \<lparr>red = 0, green = 255, blue = 0, alpha = 255\<rparr>"
    by auto
next
  have ok: "image_ok (Image_new 0 5)" "image_ok (Image_new 0 0)"
    by (simp_all add: image_ok_def Image_new_def)
  have z: "max (width (Image_new 0 5)) (width (Image_new 0 0)) = 0"
    by (simp add: Image_new_def)
  have fits: "unat (max (width (Image_new 0 5)) (width (Image_new 0 0)))
      * unat (max (height (Image_new 0 5)) (height (Image_new 0 0))) * 4 < 2 ^ 32"
    by (simp add: z)
  from generate_diff_canvas [OF ok fits, of 0] z
  show "generate_diff (Image_new 0 5) (Image_new 0 0) 0 = Inr Image_default"
    by blast
qed

text \<open>
  The canvas is not always of the larger width and height: for an \<open>Image(0, 5)\<close> and
  an \<open>Image(0, 0)\<close> the result is the default image, of height 0 and not 5.
\<close>

theorem generate_diff_canvas_counterexample:
  "generate_diff (Image_new 0 5) (Image_new 0 0) 0 = Inr Image_default
   \<and> height Image_default \<noteq> max (height (Image_new 0 5)) (height (Image_new 0 0))"
  by (simp add: generate_diff_def Image_new_def Image_default_def)

section \<open>Rounding to binary64\<close>

text \<open>
  The rounding moves a positive number by at most the fraction \<open>2 ^ - 53\<close> of it and
  leaves the natural numbers below \<open>2 ^ 53\<close> as they are. \<open>binary64_large\<close> and
  \<open>binary64_small\<close> compute \<open>binary64\<close> at a given number, from the power of two that
  scales it between \<open>2 ^ 52\<close> and \<open>2 ^ 53\<close>.
\<close>

lemma round_ties_even_of_int: "round_ties_even (of_int m) = m"
  by (simp add: round_ties_even_def)

lemma round_ties_even_error: "\<bar>of_int (round_ties_even y) - y\<bar> \<le> 1 / 2"
proof -
  have "of_int \<lfloor>y\<rfloor> \<le> y" "y < of_int \<lfloor>y\<rfloor> + 1"
    by linarith+
  then show ?thesis
    by (auto simp: round_ties_even_def Let_def)
qed

lemma floor_log2_bounds:
  assumes "0 < x"
  shows "2 powr \<lfloor>log 2 x\<rfloor> \<le> x" "x < 2 powr (\<lfloor>log 2 x\<rfloor> + 1)"
proof -
  have x: "2 powr log 2 x = x"
    using assms by simp
  have "of_int \<lfloor>log 2 x\<rfloor> \<le> log 2 x"
    by simp
  then have "2 powr \<lfloor>log 2 x\<rfloor> \<le> 2 powr log 2 x"
    by (intro powr_mono) simp_all
  then show "2 powr \<lfloor>log 2 x\<rfloor> \<le> x"
    by (simp only: x)
  have "log 2 x < of_int (\<lfloor>log 2 x\<rfloor> + 1)"
    by simp
  then have "2 powr log 2 x < 2 powr (\<lfloor>log 2 x\<rfloor> + 1)"
    by (intro powr_less_mono) simp_all
  then show "x < 2 powr (\<lfloor>log 2 x\<rfloor> + 1)"
    by (simp only: x)
qed

lemma binary64_error:
  assumes "0 < x"
  shows "\<bar>binary64 x - x\<bar> \<le> x / 2 ^ 53"
proof -
  define e where "e = \<lfloor>log 2 x\<rfloor>"
  define u where "u = 2 powr (e - 52)"
  define r where "r = round_ties_even (x * 2 powr (52 - e))"
  have u: "0 < u"
    by (simp add: u_def)
  have inv: "2 powr (52 - e) = 1 / u"
    by (simp add: u_def powr_diff)
  have b: "binary64 x = of_int r * u"
    using assms by (simp add: binary64_def Let_def e_def u_def r_def)
  have "x * 2 powr (52 - e) = x / u"
    by (simp only: inv) simp
  then have "\<bar>of_int r - x / u\<bar> \<le> 1 / 2"
    using round_ties_even_error [of "x * 2 powr (52 - e)"] by (simp only: r_def)
  then have "\<bar>of_int r - x / u\<bar> * u \<le> 1 / 2 * u"
    using u by (intro mult_right_mono) simp_all
  moreover have "\<bar>of_int r - x / u\<bar> * u = \<bar>of_int r * u - x\<bar>"
    using u by (simp add: abs_mult_pos [symmetric] field_simps del: abs_mult_pos)
  ultimately have 1: "\<bar>binary64 x - x\<bar> \<le> u / 2"
    by (simp add: b)
  have "2 powr e \<le> x"
    unfolding e_def using assms by (rule floor_log2_bounds)
  then have "u \<le> x / 2 ^ 52"
    by (simp add: u_def powr_diff field_simps)
  with 1 show ?thesis
    by simp
qed

lemma binary64_exact_nat:
  assumes "n < 2 ^ 53"
  shows "binary64 (real n) = real n"
proof (cases "n = 0")
  case True
  then show ?thesis by (simp add: binary64_def)
next
  case False
  define e where "e = \<lfloor>log 2 (real n)\<rfloor>"
  have pos: "0 < real n" using False by simp
  have "2 powr e \<le> real n" "real n < 2 powr (e + 1)"
    unfolding e_def using pos by (rule floor_log2_bounds)+
  have "1 \<le> real n" using False by simp
  then have "0 \<le> log 2 (real n)" by simp
  then have e0: "0 \<le> e" by (simp add: e_def)
  have "real n < 2 ^ 53"
    using assms by (metis of_nat_less_iff of_nat_numeral of_nat_power)
  also have "(2::real) ^ 53 = 2 powr (of_int 53)"
    by (simp add: powr_realpow [symmetric])
  finally have "2 powr (of_int e) < (2::real) powr (of_int 53)"
    using \<open>2 powr e \<le> real n\<close> by linarith
  then have "e < 53"
    by (simp only: powr_less_cancel_iff of_int_less_iff)
  then have e52: "e \<le> 52" by simp
  define k where "k = nat (52 - e)"
  have k: "52 - e = int k" using e52 by (simp add: k_def)
  have p: "2 powr (52 - e) = 2 ^ k"
    by (simp add: k powr_realpow)
  have "real_of_int (e - 52) = - real k"
    using k by simp
  then have q: "2 powr (e - 52) = 1 / 2 ^ k"
    by (simp only: powr_minus) (simp add: powr_realpow field_simps)
  have "real n * 2 powr (52 - e) = of_int (int n * 2 ^ k)"
    by (simp only: p) simp
  then have r: "round_ties_even (real n * 2 powr (52 - e)) = int n * 2 ^ k"
    by (simp only: round_ties_even_of_int)
  have "binary64 (real n) = of_int (round_ties_even (real n * 2 powr (52 - e))) * 2 powr (e - 52)"
    unfolding binary64_def Let_def e_def using False by simp
  also have "\<dots> = of_int (int n * 2 ^ k) * (1 / 2 ^ k)"
    by (simp only: r q)
  also have "\<dots> = real n"
    by simp
  finally show ?thesis .
qed

lemma binary64_pos:
  assumes "0 < x"
  shows "0 < binary64 x"
proof -
  have "x / 2 ^ 53 < x"
    using assms by (simp add: field_simps)
  with binary64_error [OF assms] show ?thesis
    by linarith
qed

lemma floor_log2_eq:
  assumes "2 powr (of_int k) \<le> x" "x < 2 powr (of_int (k + 1))"
  shows "\<lfloor>log 2 x\<rfloor> = k"
proof -
  have "0 < 2 powr (of_int k :: real)"
    by simp
  then have x: "0 < x"
    using assms(1) by linarith
  have "of_int k \<le> log 2 x"
    using assms(1) x by (simp add: le_log_iff)
  moreover have "log 2 x < of_int (k + 1)"
    using assms(2) x by (simp add: log_less_iff)
  ultimately show ?thesis
    by (intro floor_unique) simp_all
qed

lemma floor_log2_nat:
  assumes "2 ^ n \<le> x" "x < 2 ^ Suc n"
  shows "\<lfloor>log 2 x\<rfloor> = int n"
proof (rule floor_log2_eq)
  have "2 powr (real n) = (2::real) ^ n"
    by (simp only: powr_realpow zero_less_numeral)
  then show "2 powr real_of_int (int n) \<le> x"
    using assms(1) by simp
  have "2 powr (real (Suc n)) = (2::real) ^ Suc n"
    by (simp only: powr_realpow zero_less_numeral)
  moreover have "real_of_int (int n + 1) = real (Suc n)"
    by simp
  ultimately show "x < 2 powr real_of_int (int n + 1)"
    using assms(2) by (simp only:)
qed

lemma binary64_large:
  assumes "2 ^ (52 + j) \<le> x" "x < 2 ^ (53 + j)"
  shows "binary64 x = of_int (round_ties_even (x / 2 ^ j)) * 2 ^ j"
proof -
  have "0 < (2::real) ^ (52 + j)"
    by simp
  then have x: "0 < x"
    using assms(1) by linarith
  have "\<lfloor>log 2 x\<rfloor> = int (52 + j)"
    using assms by (intro floor_log2_nat) simp_all
  then have e: "\<lfloor>log 2 \<bar>x\<bar>\<rfloor> = int (52 + j)"
    using x by simp
  have 1: "2 powr (real_of_int (int (52 + j) - 52)) = 2 ^ j"
    by (simp add: powr_realpow)
  have "real_of_int (52 - int (52 + j)) = - real j"
    by simp
  then have 2: "2 powr (real_of_int (52 - int (52 + j))) = 1 / 2 ^ j"
    by (simp only: powr_minus) (simp add: powr_realpow field_simps)
  have "binary64 x = of_int (round_ties_even (x * 2 powr (real_of_int (52 - int (52 + j)))))
      * 2 powr (real_of_int (int (52 + j) - 52))"
    unfolding binary64_def Let_def e using x by simp
  then show ?thesis
    by (simp only: 1 2) simp
qed

lemma binary64_small:
  assumes "2 ^ 52 \<le> x * 2 ^ j" "x * 2 ^ j < 2 ^ 53" "j \<le> 52"
  shows "binary64 x = of_int (round_ties_even (x * 2 ^ j)) / 2 ^ j"
proof -
  have "0 < x * 2 ^ j"
    using assms(1) by (smt (verit) zero_less_power)
  then have x: "0 < x"
    by (simp add: zero_less_mult_iff)
  have p: "(2::real) ^ 52 = 2 ^ (52 - j) * 2 ^ j" "(2::real) ^ 53 = 2 ^ (53 - j) * 2 ^ j"
    using assms(3) by (simp_all add: power_add [symmetric])
  have "2 ^ (52 - j) \<le> x" "x < 2 ^ (53 - j)"
    using assms(1,2) unfolding p by simp_all
  moreover have "Suc (52 - j) = 53 - j"
    using assms(3) by simp
  ultimately have "\<lfloor>log 2 x\<rfloor> = int (52 - j)"
    by (intro floor_log2_nat) simp_all
  then have e: "\<lfloor>log 2 \<bar>x\<bar>\<rfloor> = int (52 - j)"
    using x by simp
  have "real_of_int (52 - int (52 - j)) = real j"
    using assms(3) by simp
  then have 1: "2 powr (real_of_int (52 - int (52 - j))) = 2 ^ j"
    by (simp only: powr_realpow zero_less_numeral)
  have "real_of_int (int (52 - j) - 52) = - real j"
    using assms(3) by simp
  then have 2: "2 powr (real_of_int (int (52 - j) - 52)) = 1 / 2 ^ j"
    by (simp only: powr_minus) (simp add: powr_realpow field_simps)
  have "binary64 x = of_int (round_ties_even (x * 2 powr (real_of_int (52 - int (52 - j)))))
      * 2 powr (real_of_int (int (52 - j) - 52))"
    unfolding binary64_def Let_def e using x by simp
  then show ?thesis
    by (simp only: 1 2) simp
qed

lemma binary64_wide_example:
  "binary64 (real (9223372036854775807::nat)) = 9223372036854775808"
  "binary64 (real (18446744073709551615::nat)) = 18446744073709551616"
  "binary64 (9223372036854775808 * 255) = 2351959869397967831040"
  "binary64 (2351959869397967831040 / 18446744073709551616) = 255 / 2"
proof -
  show "binary64 (real (9223372036854775807::nat)) = 9223372036854775808"
    by (subst binary64_large [where j = 10]) (simp_all add: round_ties_even_def)
  show "binary64 (real (18446744073709551615::nat)) = 18446744073709551616"
    by (subst binary64_large [where j = 11]) (simp_all add: round_ties_even_def)
  show "binary64 (9223372036854775808 * 255) = 2351959869397967831040"
    by (subst binary64_large [where j = 18]) (simp_all add: round_ties_even_def)
  show "binary64 (2351959869397967831040 / 18446744073709551616) = 255 / 2"
    by (subst binary64_small [where j = 46]) (simp_all add: round_ties_even_def)
qed

lemma half_integer_gap:
  fixes k N M :: int
  assumes "odd M" "0 < M" "even N"
    and "of_int k \<le> real_of_int N / (2 * of_int M) + 1 / 2"
    and "real_of_int N / (2 * of_int M) + 1 / 2 < of_int k + 1"
  shows "of_int k - 1 / 2 + 1 / (2 * real_of_int M) \<le> real_of_int N / (2 * of_int M)"
    and "real_of_int N / (2 * of_int M) \<le> of_int k + 1 / 2 - 1 / (2 * real_of_int M)"
proof -
  have M: "0 < real_of_int M"
    using assms(2) by simp
  have "real_of_int ((2 * k - 1) * M) \<le> real_of_int N"
    using assms(4) M by (simp add: field_simps)
  then have "(2 * k - 1) * M \<le> N"
    by (simp only: of_int_le_iff)
  moreover have "odd ((2 * k - 1) * M)"
    using assms(1) by simp
  then have "(2 * k - 1) * M \<noteq> N"
    using assms(3) by blast
  ultimately have "(2 * k - 1) * M + 1 \<le> N"
    by simp
  then have "real_of_int ((2 * k - 1) * M + 1) \<le> real_of_int N"
    by (simp only: of_int_le_iff)
  then have "real_of_int ((2 * k - 1) * M + 1) / (2 * of_int M) \<le> real_of_int N / (2 * of_int M)"
    using M by (intro divide_right_mono) simp_all
  moreover have "real_of_int ((2 * k - 1) * M + 1) / (2 * of_int M)
      = of_int k - 1 / 2 + 1 / (2 * real_of_int M)"
    using M by (simp add: field_simps)
  ultimately show "of_int k - 1 / 2 + 1 / (2 * real_of_int M) \<le> real_of_int N / (2 * of_int M)"
    by simp
  have "real_of_int N < real_of_int ((2 * k + 1) * M)"
    using assms(5) M by (simp add: field_simps)
  then have "N < (2 * k + 1) * M"
    by (simp only: of_int_less_iff)
  then have "N \<le> (2 * k + 1) * M - 1"
    by simp
  then have "real_of_int N \<le> real_of_int ((2 * k + 1) * M - 1)"
    by (simp only: of_int_le_iff)
  then have "real_of_int N / (2 * of_int M) \<le> real_of_int ((2 * k + 1) * M - 1) / (2 * of_int M)"
    using M by (intro divide_right_mono) simp_all
  moreover have "real_of_int ((2 * k + 1) * M - 1) / (2 * of_int M)
      = of_int k + 1 / 2 - 1 / (2 * real_of_int M)"
    using M by (simp add: field_simps)
  ultimately show "real_of_int N / (2 * of_int M) \<le> of_int k + 1 / 2 - 1 / (2 * real_of_int M)"
    by simp
qed

lemma lround_near:
  assumes "of_int k - 1 / 2 < y" "y < of_int k + 1 / 2" "0 \<le> k" "k \<le> 255"
  shows "lround (min 255 y) = k"
proof (cases "y \<le> 255")
  case True
  have "0 \<le> y \<or> k = 0"
    using assms(1,3) by linarith
  then show ?thesis
    using True assms(1,2) by (auto simp: lround_def min_def) linarith+
next
  case False
  then have "k = 255"
    using assms(2,4) by linarith
  then show ?thesis
    using False by (simp add: lround_def min_def)
qed

lemma extract_rounding:
  fixes v M :: nat
  assumes "odd M" "M < 2 ^ 32" "v \<le> M"
  shows "lround (min 255 (binary64 (binary64 (binary64 (real v) * 255) / binary64 (real M))))
    = \<lfloor>real v * 255 / real M + 1 / 2\<rfloor>"
proof -
  have M0: "0 < M"
    using assms(1) by (cases "M = 0") simp_all
  have "v < 2 ^ 53" "v * 255 < 2 ^ 53" "M < 2 ^ 53"
    using assms(2,3) by simp_all
  then have b: "binary64 (real v) = real v" "binary64 (real (v * 255)) = real (v * 255)"
    "binary64 (real M) = real M"
    by (simp_all only: binary64_exact_nat)
  have b2: "binary64 (real v * 255) = real v * 255"
    using b(2) by simp
  define q where "q = real v * 255 / real M"
  define k where "k = \<lfloor>q + 1 / 2\<rfloor>"
  have q0: "0 \<le> q"
    by (simp add: q_def)
  have "real v * 255 \<le> real M * 255"
    using assms(3) by simp
  then have q255: "q \<le> 255"
    using M0 by (simp add: q_def field_simps)
  have k0: "0 \<le> k" and k255: "k \<le> 255"
    using q0 q255 by (simp_all add: k_def)
  have kq: "of_int k \<le> q + 1 / 2" "q + 1 / 2 < of_int k + 1"
    unfolding k_def by linarith+
  have qN: "q = real_of_int (510 * int v) / (2 * of_int (int M))"
    by (simp add: q_def)
  have gap: "of_int k - 1 / 2 + 1 / (2 * real M) \<le> q" "q \<le> of_int k + 1 / 2 - 1 / (2 * real M)"
    using half_integer_gap [of "int M" "510 * int v" k] assms(1) M0 kq
    unfolding qN by simp_all
  have "real M < 2 ^ 32"
    using assms(2) by (metis of_nat_less_iff of_nat_numeral of_nat_power)
  then have "2 * real M * 255 < 2 ^ 53"
    by simp
  then have small: "255 / 2 ^ 53 < 1 / (2 * real M)"
    using M0 by (simp add: field_simps)
  have err: "\<bar>binary64 q - q\<bar> < 1 / (2 * real M)"
  proof (cases "q = 0")
    case True
    then show ?thesis using M0 by (simp add: binary64_def)
  next
    case False
    then have "\<bar>binary64 q - q\<bar> \<le> q / 2 ^ 53"
      using q0 by (intro binary64_error) simp
    also have "\<dots> \<le> 255 / 2 ^ 53"
      using q255 by simp
    finally show ?thesis
      using small by linarith
  qed
  have "of_int k - 1 / 2 < binary64 q" "binary64 q < of_int k + 1 / 2"
    using gap err by linarith+
  then have "lround (min 255 (binary64 q)) = k"
    using k0 k255 by (rule lround_near)
  then show ?thesis
    unfolding b(1) b2 b(3) q_def k_def .
qed

section \<open>Channel extraction\<close>

lemma and_1_eq_0_iff: "drop_bit n w AND 1 = 0 \<longleftrightarrow> \<not> bit w n" for w :: u64
  by (simp add: bit_iff_odd_drop_bit and_one_eq even_iff_mod_2_eq_zero)

lemma bit_u64_less: "bit w n \<Longrightarrow> n < 64" for w :: u64
  using bit_imp_le_length [of w n] by simp

lemma lowest_set_bit_eq:
  fixes w :: u64
  assumes "bit w s" "\<And>i. i < s \<Longrightarrow> \<not> bit w i"
  shows "lowest_set_bit w = s"
proof -
  have s: "s < 64" using assms(1) by (rule bit_u64_less)
  then have "[0..<64] = [0..<s] @ [s..<64]"
    using upt_add_eq_append [of 0 s "64 - s"] by simp
  with s have "[0..<64] = [0..<s] @ s # [Suc s..<64]"
    by (simp add: upt_conv_Cons)
  moreover have "takeWhile (\<lambda>n. \<not> bit w n) ([0..<s] @ s # [Suc s..<64])
      = [0..<s] @ takeWhile (\<lambda>n. \<not> bit w n) (s # [Suc s..<64])"
    by (rule takeWhile_append2) (use assms(2) in simp)
  ultimately show ?thesis
    using assms(1) by (simp add: lowest_set_bit_def)
qed

lemma lowest_set_bit_props:
  fixes w :: u64
  assumes "w \<noteq> 0"
  shows "bit w (lowest_set_bit w)" "i < lowest_set_bit w \<Longrightarrow> \<not> bit w i"
    "lowest_set_bit w < 64"
proof -
  from assms obtain n where "bit w n"
    by (auto simp: bit_eq_iff)
  define s where "s = (LEAST n. bit w n)"
  have b: "bit w s" unfolding s_def using \<open>bit w n\<close> by (rule LeastI)
  have l: "\<not> bit w i" if "i < s" for i
    using that not_less_Least unfolding s_def by blast
  have e: "lowest_set_bit w = s" using b l by (rule lowest_set_bit_eq)
  show "bit w (lowest_set_bit w)" using b e by simp
  show "\<not> bit w i" if "i < lowest_set_bit w" using that l e by simp
  show "lowest_set_bit w < 64" using b e bit_u64_less by simp
qed

lemma find_shift_from:
  fixes w :: u64
  assumes "bit w s" "\<And>i. n \<le> i \<Longrightarrow> i < s \<Longrightarrow> \<not> bit w i" "n \<le> s"
  shows "find_shift w n = s"
  using assms(2,3)
proof (induction "s - n" arbitrary: n)
  case 0
  then have "n = s" by simp
  with assms(1) show ?case
    by (subst find_shift.simps) (simp add: and_1_eq_0_iff)
next
  case (Suc k)
  then have "n < s" by simp
  then have nb: "\<not> bit w n" "n < 64"
    using Suc.prems(1) [of n] bit_u64_less [OF assms(1)] by simp_all
  have "find_shift w (n + 1) = s"
    using Suc by (intro Suc.hyps(1)) simp_all
  with nb show ?case
    by (subst find_shift.simps) (simp add: and_1_eq_0_iff)
qed

lemma find_shift_eq:
  fixes w :: u64
  assumes "w \<noteq> 0"
  shows "find_shift w 0 = lowest_set_bit w"
  using lowest_set_bit_props [OF assms] by (intro find_shift_from) simp_all

lemma population_count_card: "population_count w = card {i. bit w i}"
proof -
  have "set (filter (bit w) [0..<64]) = {i. bit w i}"
    using bit_u64_less [of w] by auto
  moreover have "distinct (filter (bit w) [0..<64])"
    by simp
  ultimately show ?thesis
    unfolding population_count_def using distinct_card [of "filter (bit w) [0..<64]"] by simp
qed

lemma bits_split:
  fixes w :: u64
  shows "{i. bit w i} = (if bit w 0 then {0} else {}) \<union> Suc ` {i. bit (drop_bit 1 w) i}"
proof (rule set_eqI)
  fix i
  show "i \<in> {i. bit w i}
      \<longleftrightarrow> i \<in> (if bit w 0 then {0} else {}) \<union> Suc ` {i. bit (drop_bit 1 w) i}"
    by (cases i) (simp_all add: bit_drop_bit_eq image_iff)
qed

lemma unat_and_1: "unat (w AND 1) = (if bit w 0 then 1 else 0)" for w :: u64
  by (simp add: and_one_eq bit_0 unat_mod mod2_eq_if)

lemma population_count_rec:
  "population_count w = unat (w AND 1) + population_count (drop_bit 1 w)"
proof -
  define A where "A = {i. bit (drop_bit 1 w) i}"
  define X where "X = (if bit w 0 then {0 :: nat} else {})"
  have "A \<subseteq> {..<64}"
    using bit_u64_less [of "drop_bit 1 w"] by (auto simp: A_def)
  then have fin: "finite A"
    by (rule finite_subset) simp
  have "{i. bit w i} = X \<union> Suc ` A"
    unfolding A_def X_def by (rule bits_split)
  moreover have "card (X \<union> Suc ` A) = card X + card (Suc ` A)"
    by (rule card_Un_disjoint) (use fin in \<open>auto simp: X_def\<close>)
  moreover have "card (Suc ` A) = card A"
    by (rule card_image) simp
  moreover have "card X = unat (w AND 1)"
    by (simp add: X_def unat_and_1)
  ultimately have "card {i. bit w i} = unat (w AND 1) + card A"
    by simp
  then show ?thesis
    unfolding population_count_card A_def .
qed

lemma count_bits_eq_acc: "count_bits w acc = acc + population_count w"
proof (induction w acc rule: count_bits.induct)
  case (1 tmp bits)
  show ?case
  proof (cases "tmp = 0")
    case True
    have "population_count 0 = 0"
      by (simp add: population_count_card)
    with True show ?thesis
      by (subst count_bits.simps) simp
  next
    case False
    have "count_bits tmp bits = count_bits (drop_bit 1 tmp) (bits + unat (tmp AND 1))"
      using False by (subst count_bits.simps) simp
    also have "\<dots> = bits + unat (tmp AND 1) + population_count (drop_bit 1 tmp)"
      using False by (rule 1)
    also have "\<dots> = bits + population_count tmp"
      using population_count_rec [of tmp] by simp
    finally show ?thesis .
  qed
qed

lemma count_bits_eq: "count_bits w 0 = population_count w"
  by (simp add: count_bits_eq_acc)

lemma population_count_pos:
  assumes "w \<noteq> 0"
  shows "0 < population_count w"
proof -
  from assms obtain n where "bit w n"
    by (auto simp: bit_eq_iff)
  then have "{i. bit w i} \<noteq> {}"
    by blast
  moreover have "{i. bit w i} \<subseteq> {..<64}"
    using bit_u64_less [of w] by auto
  then have "finite {i. bit w i}"
    by (rule finite_subset) simp
  ultimately show ?thesis
    unfolding population_count_card by (simp add: card_gt_0_iff)
qed

lemma and_le_mask: "unat (p AND m) \<le> unat m" for p m :: u64
proof -
  have "p AND m \<le> m"
    by (rule word_and_le1)
  then show ?thesis
    by (simp add: word_le_nat_alt)
qed

lemma extract_channel_operands:
  fixes pixel msk :: u64
  assumes "msk \<noteq> 0"
  defines "s \<equiv> lowest_set_bit msk"
  defines "v \<equiv> unat (drop_bit s (pixel AND msk))"
  defines "M \<equiv> unat (drop_bit s msk)"
  shows "0 < M" "v \<le> M" "odd M"
    "extract_channel pixel msk
       = of_int (lround (min 255 (binary64 (binary64 (binary64 (real v) * 255) / binary64 (real M)))))"
proof -
  have b: "bit msk s"
    unfolding s_def using assms(1) by (rule lowest_set_bit_props)
  then have b0: "bit (drop_bit s msk) 0"
    by (simp add: bit_drop_bit_eq)
  then have nz: "drop_bit s msk \<noteq> 0"
    by auto
  then show M: "0 < M"
    by (simp add: M_def unat_gt_0)
  have "unat (pixel AND msk) div 2 ^ s \<le> unat msk div 2 ^ s"
    by (intro div_le_mono and_le_mask)
  then show "v \<le> M"
    by (simp only: v_def M_def unat_drop_bit_eq) (simp add: drop_bit_eq_div)
  have "bit M 0"
    using b0 by (simp add: M_def bit_unsigned_iff)
  then show "odd M"
    by (simp add: bit_0)
  have bits: "count_bits (drop_bit s msk) 0 \<noteq> 0"
    using population_count_pos [OF nz] by (simp add: count_bits_eq)
  have "0 < real M"
    using M by simp
  then have pos: "0 < binary64 (real M)"
    by (rule binary64_pos)
  show "extract_channel pixel msk
       = of_int (lround (min 255 (binary64 (binary64 (binary64 (real v) * 255) / binary64 (real M)))))"
    unfolding extract_channel_def Let_def find_shift_eq [OF assms(1)] s_def [symmetric]
      v_def [symmetric] M_def [symmetric]
    using assms(1) bits pos by simp
qed

lemma extract_channel_general:
  fixes pixel msk :: u64
  assumes "msk \<noteq> 0"
  defines "s \<equiv> lowest_set_bit msk"
  defines "v \<equiv> unat (drop_bit s (pixel AND msk))"
  defines "M \<equiv> unat (drop_bit s msk)"
  assumes "M < 2 ^ 32"
  shows "uint (extract_channel pixel msk) = \<lfloor>real v * 255 / real M + 1 / 2\<rfloor>"
proof -
  note o = extract_channel_operands(1) [OF assms(1), folded s_def, folded M_def]
    extract_channel_operands(2) [OF assms(1), of pixel, folded s_def, folded v_def M_def]
    extract_channel_operands(3) [OF assms(1), folded s_def, folded M_def]
    extract_channel_operands(4) [OF assms(1), of pixel, folded s_def, folded v_def M_def]
  define x where "x = real v * 255 / real M"
  have x0: "0 \<le> x"
    by (simp add: x_def)
  have "real v \<le> real M"
    using o(2) by simp
  then have x255: "x \<le> 255"
    using o(1) by (simp add: x_def field_simps)
  have k: "0 \<le> \<lfloor>x + 1 / 2\<rfloor>" "\<lfloor>x + 1 / 2\<rfloor> < 256"
    using x0 x255 by (simp_all add: floor_less_iff)
  have "lround (min 255 (binary64 (binary64 (binary64 (real v) * 255) / binary64 (real M))))
      = \<lfloor>real v * 255 / real M + 1 / 2\<rfloor>"
    using o(3) assms(5) o(2) by (rule extract_rounding)
  then have "extract_channel pixel msk = of_int \<lfloor>x + 1 / 2\<rfloor>"
    unfolding o(4) x_def by (simp only:)
  then show ?thesis
    using k by (simp add: uint_word_of_int x_def)
qed

lemma bit_contiguous:
  assumes "s + n \<le> 64"
  shows "bit (push_bit s (mask n) :: u64) i \<longleftrightarrow> s \<le> i \<and> i < s + n"
  using assms by (auto simp: bit_simps)

lemma contiguous_mask:
  fixes pixel :: u64
  assumes "0 < n" "s + n \<le> 64"
  defines "msk \<equiv> push_bit s (mask n) :: u64"
  shows "msk \<noteq> 0" "lowest_set_bit msk = s" "population_count msk = n"
    "unat (drop_bit s msk) = 2 ^ n - 1"
    "drop_bit s (pixel AND msk) = take_bit n (drop_bit s pixel)"
proof -
  note b = bit_contiguous [OF assms(2), folded msk_def]
  have "bit msk s"
    using assms(1) by (simp add: b)
  then show "msk \<noteq> 0"
    by auto
  show "lowest_set_bit msk = s"
    by (rule lowest_set_bit_eq) (use assms(1) in \<open>simp_all add: b\<close>)
  have "{i. bit msk i} = {s..<s + n}"
    by (auto simp: b)
  then show "population_count msk = n"
    by (simp add: population_count_card)
  have d: "drop_bit s msk = mask n"
    by (rule bit_eqI) (use assms(2) in \<open>auto simp: bit_drop_bit_eq b bit_mask_iff\<close>)
  have "n \<le> 64"
    using assms(2) by simp
  then have "unat (mask n :: u64) = (mask n :: nat)"
    by (intro bit_eqI) (auto simp: bit_unsigned_iff bit_mask_iff)
  then show "unat (drop_bit s msk) = 2 ^ n - 1"
    by (simp add: d mask_eq_exp_minus_1)
  show "drop_bit s (pixel AND msk) = take_bit n (drop_bit s pixel)"
    by (rule bit_eqI) (auto simp: bit_drop_bit_eq bit_and_iff b bit_take_bit_iff)
qed

lemma extract_channel_contiguous:
  assumes "0 < n" "n \<le> 32" "s + n \<le> 64"
  shows "uint (extract_channel pixel (push_bit s (mask n)))
           = \<lfloor>real (unat (take_bit n (drop_bit s pixel))) * 255 / (2 ^ n - 1) + 1 / 2\<rfloor>"
proof -
  note c = contiguous_mask [OF assms(1,3)]
  have "(2 :: nat) ^ n \<le> 2 ^ 32"
    using assms(2) by (intro power_increasing) simp_all
  then have "unat (drop_bit (lowest_set_bit (push_bit s (mask n) :: u64)) (push_bit s (mask n) :: u64))
      < 2 ^ 32"
    by (simp only: c) simp
  moreover have "real ((2 :: nat) ^ n - 1) = 2 ^ n - 1"
    by (simp add: of_nat_diff)
  ultimately show ?thesis
    using extract_channel_general [OF c(1), of pixel] by (simp only: c)
qed

lemma population_count_drop_bit:
  fixes w :: u64
  assumes "\<And>i. i < s \<Longrightarrow> \<not> bit w i"
  shows "population_count (drop_bit s w) = population_count w"
proof -
  have "{i. bit w i} = (+) s ` {i. bit (drop_bit s w) i}"
  proof (rule set_eqI)
    fix j
    show "j \<in> {i. bit w i} \<longleftrightarrow> j \<in> (+) s ` {i. bit (drop_bit s w) i}"
    proof
      assume "j \<in> {i. bit w i}"
      then have b: "bit w j" by simp
      with assms have "s \<le> j" by (meson not_le)
      with b have "j = s + (j - s)" "bit (drop_bit s w) (j - s)"
        by (simp_all add: bit_drop_bit_eq)
      then show "j \<in> (+) s ` {i. bit (drop_bit s w) i}"
        by blast
    next
      assume "j \<in> (+) s ` {i. bit (drop_bit s w) i}"
      then show "j \<in> {i. bit w i}"
        by (auto simp: bit_drop_bit_eq)
    qed
  qed
  moreover have "card ((+) s ` {i. bit (drop_bit s w) i}) = card {i. bit (drop_bit s w) i}"
    by (rule card_image) simp
  ultimately show ?thesis
    by (simp add: population_count_card)
qed

section \<open>Normalizing a frame\<close>

lemma ximage_to_image_char:
  fixes ximg :: XImage
  defines "w \<equiv> (of_int (ximage_width ximg) :: u32)"
  defines "h \<equiv> (of_int (ximage_height ximg) :: u32)"
  assumes "unat w * unat h * 4 < 2 ^ 32"
  shows "\<exists>img. ximage_to_image (Some ximg) = Inr img \<and> image_ok img
           \<and> width img = w \<and> height img = h
           \<and> (\<forall>x < unat w. \<forall>y < unat h.
                 get_pixel img (of_nat x) (of_nat y)
                   = Inr (convert_pixel ximg (alpha_mask_of ximg)
                            (XGetPixel ximg (of_nat x) (of_nat y))))"
proof -
  define d0 where "d0 = Image_new w h"
  define F where "F = (\<lambda>x y. convert_pixel ximg (alpha_mask_of ximg)
                            (XGetPixel ximg (of_nat x) (of_nat y)))"
  have ok0: "image_ok d0"
    unfolding d0_def using assms(3) by (rule image_ok_new)
  have wh: "width d0 = w" "height d0 = h"
    by (simp_all add: d0_def Image_new_def)
  have "\<exists>d. for_loop (range32 (height d0))
           (\<lambda>y. for_loop (range32 (width d0))
              (\<lambda>x img. set_pixel img x y
                 (convert_pixel ximg (alpha_mask_of ximg) (XGetPixel ximg x y)))) d0 = Inr d
         \<and> same_shape d0 d
         \<and> (\<forall>x < unat (width d0). \<forall>y < unat (height d0). pixel_at d x y = F x y)"
    using ok0 by (rule render_loops) (simp add: F_def)
  then obtain d where d: "for_loop (range32 h)
           (\<lambda>y. for_loop (range32 w)
              (\<lambda>x img. set_pixel img x y
                 (convert_pixel ximg (alpha_mask_of ximg) (XGetPixel ximg x y)))) d0 = Inr d"
      "same_shape d0 d" "\<forall>x < unat w. \<forall>y < unat h. pixel_at d x y = F x y"
    unfolding wh by blast
  have dims: "image_ok d" "width d = w" "height d = h"
    using d(2) by (simp_all add: same_shape_def wh)
  have "get_pixel d (of_nat x) (of_nat y) = Inr (F x y)" if "x < unat w" "y < unat h" for x y
    using that d(3) dims by (simp add: get_pixel_ok)
  with d(1) dims show ?thesis
    by (auto simp: ximage_to_image_def Let_def w_def [symmetric] h_def [symmetric] d0_def F_def)
qed

lemma convert_pixel_alpha:
  "alpha (convert_pixel ximg am px) = (if am = 0 \<or> extract_channel px am = 0 then 255
                                        else extract_channel px am)"
  by (simp add: convert_pixel_def Let_def)

lemma alpha_mask_of_shallow: "depth ximg \<le> 24 \<Longrightarrow> alpha_mask_of ximg = 0"
  by (simp add: alpha_mask_of_def)

lemma u8_eqI: "uint (c :: u8) = uint d \<Longrightarrow> c = d"
  by (simp add: word_uint_eq_iff)

lemma extract_examples:
  "extract_channel 0x00FF0000 0x00FF0000 = 255"
  "extract_channel 0x00FF0000 0x0000FF00 = 0"
  "extract_channel 0x00FF0000 0x000000FF = 0"
  "extract_channel 0x00FF0000 0xFF000000 = 0"
proof -
  have m: "(0x00FF0000 :: u64) = push_bit 16 (mask 8)" "(0x0000FF00 :: u64) = push_bit 8 (mask 8)"
    "(0x000000FF :: u64) = push_bit 0 (mask 8)" "(0xFF000000 :: u64) = push_bit 24 (mask 8)"
    by (simp_all add: mask_eq_exp_minus_1)
  have v: "unat (take_bit 8 (drop_bit 16 (0x00FF0000 :: u64))) = 255"
    "unat (take_bit 8 (drop_bit 8 (0x00FF0000 :: u64))) = 0"
    "unat (take_bit 8 (drop_bit 0 (0x00FF0000 :: u64))) = 0"
    "unat (take_bit 8 (drop_bit 24 (0x00FF0000 :: u64))) = 0"
    by (simp_all add: drop_bit_eq_div take_bit_eq_mod)
  have "uint (extract_channel 0x00FF0000 (push_bit 16 (mask 8))) = 255"
    "uint (extract_channel 0x00FF0000 (push_bit 8 (mask 8))) = 0"
    "uint (extract_channel 0x00FF0000 (push_bit 0 (mask 8))) = 0"
    "uint (extract_channel 0x00FF0000 (push_bit 24 (mask 8))) = 0"
    using extract_channel_contiguous [of 8 16 "0x00FF0000"]
      extract_channel_contiguous [of 8 8 "0x00FF0000"]
      extract_channel_contiguous [of 8 0 "0x00FF0000"]
      extract_channel_contiguous [of 8 24 "0x00FF0000"]
    unfolding v by simp_all
  then show "extract_channel 0x00FF0000 0x00FF0000 = 255"
    "extract_channel 0x00FF0000 0x0000FF00 = 0"
    "extract_channel 0x00FF0000 0x000000FF = 0"
    "extract_channel 0x00FF0000 0xFF000000 = 0"
    unfolding m [symmetric] by (simp_all add: u8_eqI)
qed

lemma extract_examples_565:
  "extract_channel 0xF800 0xF800 = 255"
  "extract_channel 0xF800 0x07E0 = 0"
  "extract_channel 0xF800 0x001F = 0"
proof -
  have m: "(0xF800 :: u64) = push_bit 11 (mask 5)" "(0x07E0 :: u64) = push_bit 5 (mask 6)"
    "(0x001F :: u64) = push_bit 0 (mask 5)"
    by (simp_all add: mask_eq_exp_minus_1)
  have v: "unat (take_bit 5 (drop_bit 11 (0xF800 :: u64))) = 31"
    "unat (take_bit 6 (drop_bit 5 (0xF800 :: u64))) = 0"
    "unat (take_bit 5 (drop_bit 0 (0xF800 :: u64))) = 0"
    by (simp_all add: drop_bit_eq_div take_bit_eq_mod)
  have "uint (extract_channel 0xF800 (push_bit 11 (mask 5))) = 255"
    "uint (extract_channel 0xF800 (push_bit 5 (mask 6))) = 0"
    "uint (extract_channel 0xF800 (push_bit 0 (mask 5))) = 0"
    using extract_channel_contiguous [of 5 11 "0xF800"]
      extract_channel_contiguous [of 6 5 "0xF800"]
      extract_channel_contiguous [of 5 0 "0xF800"]
    unfolding v by simp_all
  then show "extract_channel 0xF800 0xF800 = 255"
    "extract_channel 0xF800 0x07E0 = 0"
    "extract_channel 0xF800 0x001F = 0"
    unfolding m [symmetric] by (simp_all add: u8_eqI)
qed

lemma alpha_mask_examples:
  "alpha_mask_of case_a_ximage = 0" "alpha_mask_of argb_ximage = 0xFF000000"
  by (simp_all add: alpha_mask_of_def case_a_ximage_def argb_ximage_def)

lemma rgb565_frame:
  "\<exists>img. ximage_to_image (Some rgb565_ximage) = Inr img
     \<and> get_pixel img 0 0 = Inr \<lparr>red = 255, green = 0, blue = 0, alpha = 255\<rparr>"
proof -
  have f: "ximage_width rgb565_ximage = 1" "ximage_height rgb565_ximage = 1"
    "red_mask rgb565_ximage = 0xF800" "green_mask rgb565_ximage = 0x07E0"
    "blue_mask rgb565_ximage = 0x001F" "XGetPixel rgb565_ximage = (\<lambda>x y. 0xF800)"
    "alpha_mask_of rgb565_ximage = 0"
    by (simp_all add: rgb565_ximage_def alpha_mask_of_def)
  have "unat (of_int (ximage_width rgb565_ximage) :: u32)
      * unat (of_int (ximage_height rgb565_ximage) :: u32) * 4 < 2 ^ 32"
    by (simp add: f)
  from ximage_to_image_char [OF this] obtain img where
    "ximage_to_image (Some rgb565_ximage) = Inr img"
    "get_pixel img 0 0 = Inr (convert_pixel rgb565_ximage 0 0xF800)"
    by (auto simp: f)
  then show ?thesis
    by (simp add: convert_pixel_def f extract_examples_565)
qed

lemma extract_channel_wide_mask:
  "extract_channel 0x7FFFFFFFFFFFFFFF 0xFFFFFFFFFFFFFFFF = 128"
proof -
  have l: "lowest_set_bit 0xFFFFFFFFFFFFFFFF = 0"
    by code_simp
  have v: "unat (drop_bit 0 (0x7FFFFFFFFFFFFFFF AND 0xFFFFFFFFFFFFFFFF :: u64)) = 9223372036854775807"
    "unat (drop_bit 0 (0xFFFFFFFFFFFFFFFF :: u64)) = 18446744073709551615"
    by simp_all
  have "lround (min 255 (255 / 2)) = 128"
    by (simp add: lround_def)
  then show ?thesis
    using extract_channel_operands(4) [of "0xFFFFFFFFFFFFFFFF" "0x7FFFFFFFFFFFFFFF"]
    unfolding l v binary64_wide_example by simp
qed

text \<open>
  Claim C4, amended. A zero mask yields 0. For a non-zero mask the first loop finds the
  lowest set bit and the second loop counts the set bits, and the channel value
  \<open>(pixel AND mask) >> shift\<close> never exceeds \<open>mask >> shift\<close>. When \<open>mask >> shift\<close> is
  below \<open>2 ^ 32\<close> (a mask at most 32 bits wide, anywhere in the 64-bit word), the value is
  rescaled linearly from the range \<open>[0, mask >> shift]\<close> to \<open>[0, 255]\<close> and rounded to the
  nearest integer: the roundings of the binary64 arithmetic do not change the result
  there, and the clamp is never active. When the mask is \<open>n \<le> 32\<close> contiguous bits
  starting at bit \<open>s\<close>, the range is \<open>[0, 2 ^ n - 1]\<close> with \<open>n\<close> the population count. The
  565 pixel \<open>0xF800\<close> is normalized to \<open>(255, 0, 0, 255)\<close>. (For wider masks the binary64
  roundings can change the byte: \<open>extract_channel_wide_mask\<close> above.)
\<close>

theorem extract_channel_rescales:
  fixes pixel msk :: u64
  shows "extract_channel pixel 0 = 0
    \<and> (msk \<noteq> 0 \<longrightarrow>
         bit msk (lowest_set_bit msk) \<and> (\<forall>i < lowest_set_bit msk. \<not> bit msk i)
         \<and> count_bits (drop_bit (find_shift msk 0) msk) 0 = population_count msk
         \<and> find_shift msk 0 = lowest_set_bit msk
         \<and> unat (drop_bit (lowest_set_bit msk) (pixel AND msk))
              \<le> unat (drop_bit (lowest_set_bit msk) msk))
    \<and> (msk \<noteq> 0 \<and> unat (drop_bit (lowest_set_bit msk) msk) < 2 ^ 32 \<longrightarrow>
         uint (extract_channel pixel msk)
              = \<lfloor>real (unat (drop_bit (lowest_set_bit msk) (pixel AND msk))) * 255
                  / real (unat (drop_bit (lowest_set_bit msk) msk)) + 1 / 2\<rfloor>)
    \<and> (0 < n \<and> n \<le> 32 \<and> s + n \<le> 64 \<longrightarrow>
         lowest_set_bit (push_bit s (mask n)) = s
         \<and> population_count (push_bit s (mask n)) = n
         \<and> uint (extract_channel pixel (push_bit s (mask n)))
              = \<lfloor>real (unat (take_bit n (drop_bit s pixel))) * 255 / (2 ^ n - 1) + 1 / 2\<rfloor>)
    \<and> (\<exists>img. ximage_to_image (Some rgb565_ximage) = Inr img
          \<and> get_pixel img 0 0 = Inr \<lparr>red = 255, green = 0, blue = 0, alpha = 255\<rparr>)"
proof (intro conjI impI)
  show "extract_channel pixel 0 = 0"
    by (simp add: extract_channel_def)
  show "\<exists>img. ximage_to_image (Some rgb565_ximage) = Inr img
          \<and> get_pixel img 0 0 = Inr \<lparr>red = 255, green = 0, blue = 0, alpha = 255\<rparr>"
    by (rule rgb565_frame)
next
  assume m: "msk \<noteq> 0"
  show "bit msk (lowest_set_bit msk)"
    using m by (rule lowest_set_bit_props)
  show "\<forall>i < lowest_set_bit msk. \<not> bit msk i"
    using lowest_set_bit_props(2) [OF m] by blast
  show "find_shift msk 0 = lowest_set_bit msk"
    using m by (rule find_shift_eq)
  have "population_count (drop_bit (lowest_set_bit msk) msk) = population_count msk"
    using lowest_set_bit_props(2) [OF m] by (rule population_count_drop_bit)
  then show "count_bits (drop_bit (find_shift msk 0) msk) 0 = population_count msk"
    by (simp add: count_bits_eq find_shift_eq [OF m])
  show "unat (drop_bit (lowest_set_bit msk) (pixel AND msk))
          \<le> unat (drop_bit (lowest_set_bit msk) msk)"
    using m by (rule extract_channel_operands)
next
  assume "msk \<noteq> 0 \<and> unat (drop_bit (lowest_set_bit msk) msk) < 2 ^ 32"
  then have m: "msk \<noteq> 0" "unat (drop_bit (lowest_set_bit msk) msk) < 2 ^ 32"
    by simp_all
  show "uint (extract_channel pixel msk)
          = \<lfloor>real (unat (drop_bit (lowest_set_bit msk) (pixel AND msk))) * 255
              / real (unat (drop_bit (lowest_set_bit msk) msk)) + 1 / 2\<rfloor>"
    using m by (rule extract_channel_general)
next
  assume "0 < n \<and> n \<le> 32 \<and> s + n \<le> 64"
  then have n: "0 < n" "n \<le> 32" "s + n \<le> 64"
    by simp_all
  note c = contiguous_mask [OF n(1,3)]
  show "lowest_set_bit (push_bit s (mask n)) = s"
    by (rule c)
  show "population_count (push_bit s (mask n)) = n"
    by (rule c)
  show "uint (extract_channel pixel (push_bit s (mask n)))
          = \<lfloor>real (unat (take_bit n (drop_bit s pixel))) * 255 / (2 ^ n - 1) + 1 / 2\<rfloor>"
    using n by (rule extract_channel_contiguous)
qed

theorem extract_channel_rescales_witness:
  "uint (extract_channel 0xF800 0xF800) = 255 \<and> uint (extract_channel 0xF800 0x07E0) = 0
   \<and> uint (extract_channel 0xF800 0x001F) = 0 \<and> extract_channel 0xF800 0 = 0
   \<and> lowest_set_bit 0xF800 = 11 \<and> population_count 0xF800 = 5"
proof -
  have m: "(0xF800 :: u64) = push_bit 11 (mask 5)" "(0x07E0 :: u64) = push_bit 5 (mask 6)"
    "(0x001F :: u64) = push_bit 0 (mask 5)"
    by (simp_all add: mask_eq_exp_minus_1)
  have v: "unat (take_bit 5 (drop_bit 11 (0xF800 :: u64))) = 31"
    "unat (take_bit 6 (drop_bit 5 (0xF800 :: u64))) = 0"
    "unat (take_bit 5 (drop_bit 0 (0xF800 :: u64))) = 0"
    by (simp_all add: drop_bit_eq_div take_bit_eq_mod)
  from extract_channel_rescales [of "0xF800" "0xF800" 5 11]
    extract_channel_rescales [of "0xF800" "0xF800" 6 5]
    extract_channel_rescales [of "0xF800" "0xF800" 5 0]
  show ?thesis
    unfolding m [symmetric] v by simp
qed

text \<open>
  For a mask whose set bits are not contiguous the range is not \<open>[0, 2 ^ bits - 1]\<close>:
  with mask \<open>5\<close> (bits 0 and 2) the pixel \<open>4\<close> becomes \<open>round (4 * 255 / 5) = 204\<close>,
  not \<open>min 255 (round (4 * 255 / 3)) = 255\<close>.
\<close>

theorem extract_channel_rescales_counterexample:
  "uint (extract_channel 4 5)
     \<noteq> min 255 \<lfloor>real (unat (drop_bit (lowest_set_bit 5) (4 AND 5 :: u64))) * 255
                   / (2 ^ population_count 5 - 1) + 1 / 2\<rfloor>"
proof -
  have l: "lowest_set_bit 5 = 0" "population_count 5 = 2"
    by code_simp+
  have "uint (extract_channel 4 5) = 204"
    using extract_channel_general [of 5 4] by (simp add: l)
  then show ?thesis
    by (simp add: l)
qed

text \<open>
  Claim C5. For a frame whose canvas fits the 32-bit size arithmetic,
  \<open>ximage_to_image\<close> returns an image of the frame's width and height in which every
  pixel has the three extracted colour channels, and: when the depth is at most 24 the
  alpha is 255; when the depth exceeds 24, an alpha mask exists and the extracted alpha
  is 0, the alpha is 255 as well. The packed pixel \<open>0x00FF0000\<close> of the 32-bit,
  depth-24 descriptor becomes \<open>(255, 0, 0, 255)\<close>.
\<close>

theorem ximage_to_image_alpha:
  assumes "unat (of_int (ximage_width ximg) :: u32) * unat (of_int (ximage_height ximg) :: u32) * 4
             < 2 ^ 32"
  shows "\<exists>img. ximage_to_image (Some ximg) = Inr img
           \<and> width img = of_int (ximage_width ximg) \<and> height img = of_int (ximage_height ximg)
           \<and> (\<forall>x < unat (width img). \<forall>y < unat (height img).
                \<exists>p. get_pixel img (of_nat x) (of_nat y) = Inr p
                  \<and> red p = extract_channel (XGetPixel ximg (of_nat x) (of_nat y)) (red_mask ximg)
                  \<and> green p = extract_channel (XGetPixel ximg (of_nat x) (of_nat y)) (green_mask ximg)
                  \<and> blue p = extract_channel (XGetPixel ximg (of_nat x) (of_nat y)) (blue_mask ximg)
                  \<and> (depth ximg \<le> 24 \<longrightarrow> alpha p = 255)
                  \<and> (depth ximg > 24 \<and> alpha_mask_of ximg \<noteq> 0
                       \<and> extract_channel (XGetPixel ximg (of_nat x) (of_nat y))
                            (alpha_mask_of ximg) = 0
                     \<longrightarrow> alpha p = 255))"
proof -
  from ximage_to_image_char [OF assms] obtain img where
    img: "ximage_to_image (Some ximg) = Inr img"
      "width img = of_int (ximage_width ximg)" "height img = of_int (ximage_height ximg)"
      "\<forall>x < unat (of_int (ximage_width ximg) :: u32).
         \<forall>y < unat (of_int (ximage_height ximg) :: u32).
           get_pixel img (of_nat x) (of_nat y)
             = Inr (convert_pixel ximg (alpha_mask_of ximg)
                      (XGetPixel ximg (of_nat x) (of_nat y)))"
    by blast
  have c: "red (convert_pixel ximg am px) = extract_channel px (red_mask ximg)"
    "green (convert_pixel ximg am px) = extract_channel px (green_mask ximg)"
    "blue (convert_pixel ximg am px) = extract_channel px (blue_mask ximg)" for am px
    by (simp_all add: convert_pixel_def Let_def)
  from img show ?thesis
    by (auto simp: c convert_pixel_alpha alpha_mask_of_shallow)
qed

theorem ximage_to_image_alpha_witness:
  "(\<exists>img. ximage_to_image (Some case_a_ximage) = Inr img \<and> width img = 1 \<and> height img = 1
      \<and> get_pixel img 0 0 = Inr \<lparr>red = 255, green = 0, blue = 0, alpha = 255\<rparr>)
   \<and> (\<exists>img. ximage_to_image (Some argb_ximage) = Inr img \<and> width img = 1 \<and> height img = 1
      \<and> get_pixel img 0 0 = Inr \<lparr>red = 255, green = 0, blue = 0, alpha = 255\<rparr>)
   \<and> (\<exists>img. ximage_to_image (Some rgb565_ximage) = Inr img \<and> width img = 1 \<and> height img = 1
      \<and> get_pixel img 0 0 = Inr \<lparr>red = 255, green = 0, blue = 0, alpha = 255\<rparr>)"
proof (intro conjI)
  have f: "ximage_width case_a_ximage = 1" "ximage_height case_a_ximage = 1"
    "depth case_a_ximage = 24" "red_mask case_a_ximage = 0x00FF0000"
    "green_mask case_a_ximage = 0x0000FF00" "blue_mask case_a_ximage = 0x000000FF"
    "XGetPixel case_a_ximage = (\<lambda>x y. 0x00FF0000)"
    by (simp_all add: case_a_ximage_def)
  have "unat (of_int (ximage_width case_a_ximage) :: u32)
      * unat (of_int (ximage_height case_a_ximage) :: u32) * 4 < 2 ^ 32"
    by (simp add: f)
  from ximage_to_image_alpha [OF this] obtain img p where
    "ximage_to_image (Some case_a_ximage) = Inr img" "width img = 1" "height img = 1"
    "get_pixel img 0 0 = Inr p" "red p = 255" "green p = 0" "blue p = 0" "alpha p = 255"
    by (auto simp: f extract_examples)
  then show "\<exists>img. ximage_to_image (Some case_a_ximage) = Inr img \<and> width img = 1
      \<and> height img = 1
      \<and> get_pixel img 0 0 = Inr \<lparr>red = 255, green = 0, blue = 0, alpha = 255\<rparr>"
    by (cases p) auto
next
  have f: "ximage_width argb_ximage = 1" "ximage_height argb_ximage = 1"
    "depth argb_ximage = 32" "red_mask argb_ximage = 0x00FF0000"
    "green_mask argb_ximage = 0x0000FF00" "blue_mask argb_ximage = 0x000000FF"
    "XGetPixel argb_ximage = (\<lambda>x y. 0x00FF0000)"
    by (simp_all add: argb_ximage_def case_a_ximage_def)
  have "unat (of_int (ximage_width argb_ximage) :: u32)
      * unat (of_int (ximage_height argb_ximage) :: u32) * 4 < 2 ^ 32"
    by (simp add: f)
  from ximage_to_image_alpha [OF this] obtain img p where
    "ximage_to_image (Some argb_ximage) = Inr img" "width img = 1" "height img = 1"
    "get_pixel img 0 0 = Inr p" "red p = 255" "green p = 0" "blue p = 0" "alpha p = 255"
    by (auto simp: f extract_examples alpha_mask_examples)
  then show "\<exists>img. ximage_to_image (Some argb_ximage) = Inr img \<and> width img = 1
      \<and> height img = 1
      \<and> get_pixel img 0 0 = Inr \<lparr>red = 255, green = 0, blue = 0, alpha = 255\<rparr>"
    by (cases p) auto
next
  have f: "ximage_width rgb565_ximage = 1" "ximage_height rgb565_ximage = 1"
    "depth rgb565_ximage = 16" "red_mask rgb565_ximage = 0xF800"
    "green_mask rgb565_ximage = 0x07E0" "blue_mask rgb565_ximage = 0x001F"
    "XGetPixel rgb565_ximage = (\<lambda>x y. 0xF800)"
    by (simp_all add: rgb565_ximage_def)
  have "unat (of_int (ximage_width rgb565_ximage) :: u32)
      * unat (of_int (ximage_height rgb565_ximage) :: u32) * 4 < 2 ^ 32"
    by (simp add: f)
  from ximage_to_image_alpha [OF this] obtain img p where
    "ximage_to_image (Some rgb565_ximage) = Inr img" "width img = 1" "height img = 1"
    "get_pixel img 0 0 = Inr p" "red p = 255" "green p = 0" "blue p = 0" "alpha p = 255"
    by (auto simp: f extract_examples_565)
  then show "\<exists>img. ximage_to_image (Some rgb565_ximage) = Inr img \<and> width img = 1
      \<and> height img = 1
      \<and> get_pixel img 0 0 = Inr \<lparr>red = 255, green = 0, blue = 0, alpha = 255\<rparr>"
    by (cases p) auto
qed

section \<open>Failures of the persistence calls\<close>




section \<open>Round trip through a file\<close>

lemma row_offset_unat:
  assumes ok: "unat (w :: u32) * H * 4 < 2 ^ 32" and y: "y < H"
  shows "unat (of_nat y * w * 4 :: u32) = y * (unat w * 4)"
proof -
  define n where "n = y * (unat w * 4)"
  have "y * unat w \<le> H * unat w"
    using y by (intro mult_le_mono1) simp
  then have "n \<le> unat w * H * 4"
    by (simp add: n_def mult.commute)
  then have "n < 2 ^ 32"
    using ok by linarith
  then have u: "unat (of_nat n :: u32) = n"
    by (simp add: unat_of_nat)
  have e: "of_nat y * w * 4 = (of_nat n :: u32)"
    by (simp add: n_def)
  show ?thesis
    unfolding e u by (simp only: n_def)
qed

lemma row_in_buffer:
  fixes y H L :: nat
  assumes "y < H"
  shows "y * L + L \<le> H * L"
proof -
  have "(y + 1) * L \<le> H * L"
    using assms by (intro mult_le_mono1) simp
  then show ?thesis
    by simp
qed

lemma fold_snoc_map: "fold (\<lambda>y rows. rows @ [g y]) ys acc = acc @ map g ys"
  by (induction ys arbitrary: acc) simp_all

lemma image_rows_char:
  assumes "image_ok img"
  shows "image_rows img
    = Inr (map (\<lambda>y. take (unat (width img) * 4) (drop (y * (unat (width img) * 4)) (data img)))
        [0..<unat (height img)])"
proof -
  define L where "L = unat (width img) * 4"
  define H where "H = unat (height img)"
  have len: "length (data img) = H * L" and ok: "unat (width img) * H * 4 < 2 ^ 32"
    using assms by (simp_all add: image_ok_def L_def H_def mult.commute mult.left_commute)
  have "for_loop (map of_nat [0..<H])
       (\<lambda>y rows.
          (let offset = unat (y * width img * 4); rowbytes = unat (width img) * 4
           in if offset + rowbytes \<le> length (data img)
              then Inr (rows @ [take rowbytes (drop offset (data img))])
              else Inl undefined_access))
       []
     = Inr (fold (\<lambda>y rows. rows @ [take L (drop (y * L) (data img))]) [0..<H] [])"
  proof (rule for_loop_map_fold)
    fix y :: nat and rows :: "u8 list list"
    assume "y \<in> set [0..<H]"
    then have y: "y < H"
      by simp
    have o: "unat (of_nat y * width img * 4) = y * L"
      unfolding L_def using ok y by (rule row_offset_unat)
    have "y * L + L \<le> length (data img)"
      unfolding len using y by (rule row_in_buffer)
    then show "(let offset = unat (of_nat y * width img * 4); rowbytes = unat (width img) * 4
           in if offset + rowbytes \<le> length (data img)
              then Inr (rows @ [take rowbytes (drop offset (data img))])
              else Inl undefined_access)
        = Inr (rows @ [take L (drop (y * L) (data img))])"
      unfolding Let_def o L_def [symmetric] by simp
  qed
  then show ?thesis
    unfolding image_rows_def range32_def H_def [symmetric] L_def [symmetric]
    by (simp only: fold_snoc_map append_Nil)
qed

lemma concat_chunks:
  assumes "length xs = H * L"
  shows "concat (map (\<lambda>y. take L (drop (y * L) xs)) [0..<H]) = xs"
  using assms
proof (induction H arbitrary: xs)
  case 0
  then show ?case by simp
next
  case (Suc H)
  have "length (take (H * L) xs) = H * L"
    using Suc.prems by simp
  then have "concat (map (\<lambda>y. take L (drop (y * L) (take (H * L) xs))) [0..<H]) = take (H * L) xs"
    by (rule Suc.IH)
  moreover have "map (\<lambda>y. take L (drop (y * L) (take (H * L) xs))) [0..<H]
      = map (\<lambda>y. take L (drop (y * L) xs)) [0..<H]"
  proof (rule map_cong [OF refl])
    fix y
    assume "y \<in> set [0..<H]"
    then have "y < H"
      by simp
    then have "y * L + L \<le> H * L"
      by (rule row_in_buffer)
    then show "take L (drop (y * L) (take (H * L) xs)) = take L (drop (y * L) xs)"
      by (simp add: drop_take min_def)
  qed
  ultimately have "concat (map (\<lambda>y. take L (drop (y * L) xs)) [0..<H]) = take (H * L) xs"
    by simp
  moreover have "take L (drop (H * L) xs) = drop (H * L) xs"
    using Suc.prems by simp
  ultimately show ?case
    by simp
qed

lemma for_loop_append:
  "for_loop (xs @ ys) body s
     = (case for_loop xs body s of Inl e \<Rightarrow> Inl e | Inr t \<Rightarrow> for_loop ys body t)"
  by (induction xs arbitrary: s) (simp_all split: sum.splits)

lemma length_concat_rows:
  assumes "\<And>row. row \<in> set rows \<Longrightarrow> length row = L"
  shows "length (concat rows) = length rows * L"
  using assms by (induction rows) simp_all

lemma store_rows_prefix:
  fixes w :: u32
  assumes rows: "\<And>row. row \<in> set rows \<Longrightarrow> length row = unat w * 4"
    and len: "length buf = length rows * (unat w * 4)"
    and ok: "unat w * length rows * 4 < 2 ^ 32"
    and small: "length rows < 2 ^ 32"
    and k: "k \<le> length rows"
  shows "for_loop (map of_nat [0..<k])
       (\<lambda>y buf. store_row buf (unat (y * w * 4)) (rows ! unat (y :: u32))) buf
     = Inr (concat (take k rows) @ drop (k * (unat w * 4)) buf)"
  using k
proof (induction k)
  case 0
  then show ?case by simp
next
  case (Suc k)
  define L where "L = unat w * 4"
  define H where "H = length rows"
  define s where "s = concat (take k rows) @ drop (k * L) buf"
  have kH: "k < H"
    using Suc.prems by (simp add: H_def)
  have IH: "for_loop (map of_nat [0..<k])
       (\<lambda>y buf. store_row buf (unat (y * w * 4)) (rows ! unat (y :: u32))) buf = Inr s"
    unfolding s_def L_def using Suc.IH Suc.prems by simp
  have "row \<in> set (take k rows) \<Longrightarrow> length row = L" for row
    using rows [of row] by (auto simp: L_def dest: in_set_takeD)
  then have "length (concat (take k rows)) = length (take k rows) * L"
    by (rule length_concat_rows)
  then have lc: "length (concat (take k rows)) = k * L"
    using kH by (simp add: H_def)
  have fit: "k * L + L \<le> H * L"
    using kH by (rule row_in_buffer)
  have lb: "length buf = H * L"
    using len by (simp add: H_def L_def)
  have ls: "length s = H * L"
    using fit by (simp add: s_def lc lb)
  have lr: "length (rows ! k) = L"
    unfolding L_def using kH by (intro rows) (simp add: H_def)
  have "k < 2 ^ 32"
    using kH small by (simp add: H_def)
  then have uk: "unat (of_nat k :: u32) = k"
    by (simp add: unat_of_nat)
  have o: "unat (of_nat k * w * 4) = k * L"
    unfolding L_def using ok kH unfolding H_def by (rule row_offset_unat)
  have "store_row s (k * L) (rows ! k)
      = Inr (take (k * L) s @ rows ! k @ drop (k * L + L) s)"
    using fit by (simp add: store_row_def lr ls)
  also have "take (k * L) s = concat (take k rows)"
    by (simp add: s_def lc)
  also have "drop (k * L + L) s = drop (Suc k * L) buf"
    by (simp add: s_def lc add.commute)
  also have "concat (take k rows) @ rows ! k @ drop (Suc k * L) buf
      = concat (take (Suc k) rows) @ drop (Suc k * L) buf"
    using kH by (simp add: take_Suc_conv_app_nth H_def)
  finally have step: "store_row s (unat (of_nat k * w * 4)) (rows ! unat (of_nat k :: u32))
      = Inr (concat (take (Suc k) rows) @ drop (Suc k * L) buf)"
    by (simp only: o uk)
  have "[0..<Suc k] = [0..<k] @ [k]"
    by simp
  then show ?case
    unfolding L_def [symmetric] by (simp only: map_append for_loop_append IH) (simp add: step)
qed

lemma store_rows_char:
  fixes w h :: u32
  assumes rows: "\<And>row. row \<in> set rows \<Longrightarrow> length row = unat w * 4"
    and h: "length rows = unat h"
    and len: "length buf = unat h * (unat w * 4)"
    and ok: "unat w * unat h * 4 < 2 ^ 32"
  shows "store_rows w h rows buf = Inr (concat rows)"
proof -
  have "length rows < 2 ^ 32"
    unfolding h using unsigned_less [of h, where ?'a = nat] by simp
  then have "for_loop (map of_nat [0..<length rows])
       (\<lambda>y buf. store_row buf (unat (y * w * 4)) (rows ! unat (y :: u32))) buf
     = Inr (concat (take (length rows) rows) @ drop (length rows * (unat w * 4)) buf)"
    using rows len ok unfolding h [symmetric] by (intro store_rows_prefix) simp_all
  then show ?thesis
    using len by (simp add: store_rows_def range32_def h)
qed

lemma unat_area:
  fixes w h :: u32
  assumes "unat w * unat h * 4 < 2 ^ 32"
  shows "unat (w * h * 4) = unat w * unat h * 4"
proof -
  have "w * h * 4 = (of_nat (unat w * unat h * 4) :: u32)"
    by simp
  then show ?thesis
    using assms by (simp only: unat_of_nat) simp
qed

lemma length_resize: "length (resize xs n) = n"
  by (simp add: resize_def)

lemma save_png_fs_success:
  assumes "image_ok img"
  shows "save_png_fs img filename w = Inr (True, w')
    \<longleftrightarrow> can_write w filename \<and> can_allocate w \<and> ihdr_ok (width img) (height img)
      \<and> w' = w\<lparr>files := (files w)(filename \<mapsto> png_data
           \<lparr>png_width = width img, png_height = height img, png_bit_depth = 8,
            png_color_type = COLOR_TYPE_RGBA, png_interlaced = False, png_has_tRNS = False,
            png_rows = map (\<lambda>y. take (unat (width img) * 4)
                                (drop (y * (unat (width img) * 4)) (data img)))
                         [0..<unat (height img)]\<rparr>)\<rparr>"
  unfolding save_png_fs_def Let_def image_rows_char [OF assms] by auto

lemma load_saved_file:
  assumes ok: "image_ok img"
    and alloc: "can_allocate w"
    and ihdr: "ihdr_ok (width img) (height img)"
    and stored: "files w filename = Some (png_data
           \<lparr>png_width = width img, png_height = height img, png_bit_depth = 8,
            png_color_type = COLOR_TYPE_RGBA, png_interlaced = False, png_has_tRNS = False,
            png_rows = map (\<lambda>y. take (unat (width img) * 4)
                                (drop (y * (unat (width img) * 4)) (data img)))
                         [0..<unat (height img)]\<rparr>)"
  shows "load_png_fs convert old filename w = Inr (True, img)"
proof -
  define L where "L = unat (width img) * 4"
  define H where "H = unat (height img)"
  define rows where "rows = map (\<lambda>y. take L (drop (y * L) (data img))) [0..<H]"
  define f where "f = \<lparr>png_width = width img, png_height = height img, png_bit_depth = 8,
            png_color_type = COLOR_TYPE_RGBA, png_interlaced = False, png_has_tRNS = False,
            png_rows = rows\<rparr>"
  define buf where "buf = resize (data old) (unat (width img * height img * 4))"
  have len: "length (data img) = H * L" and area: "unat (width img) * unat (height img) * 4 < 2 ^ 32"
    using ok by (simp_all add: image_ok_def L_def H_def mult.commute mult.left_commute)
  have stored': "files w filename = Some (png_data f)"
    using stored by (simp only: f_def rows_def L_def H_def)
  have t: "requested_transforms f = []"
    by (simp add: requested_transforms_def f_def)
  have d: "decoded_rows convert f = rows"
    by (simp add: decoded_rows_def t) (simp add: f_def)
  have hdr: "png_width f = width img" "png_height f = height img"
    by (simp_all add: f_def)
  have lrows: "length rows = unat (height img)"
    by (simp add: rows_def H_def)
  have "length row = unat (width img) * 4" if "row \<in> set rows" for row
  proof -
    from that obtain y where y: "y < H" and row: "row = take L (drop (y * L) (data img))"
      by (auto simp: rows_def)
    have "y * L + L \<le> H * L"
      using y by (rule row_in_buffer)
    then show ?thesis
      by (simp add: row len L_def [symmetric])
  qed
  moreover have "length buf = unat (height img) * (unat (width img) * 4)"
    by (simp add: buf_def length_resize unat_area [OF area])
  ultimately have "store_rows (width img) (height img) rows buf = Inr (concat rows)"
    using lrows area by (intro store_rows_char) simp_all
  also have "concat rows = data img"
    unfolding rows_def using len by (rule concat_chunks)
  finally have st: "store_rows (width img) (height img) rows buf = Inr (data img)" .
  show ?thesis
    unfolding load_png_fs_def Let_def stored' option.case file_content.case hdr d
      buf_def [symmetric] st
    using alloc ihdr lrows by simp
qed

text \<open>
  The result of \<open>save_png_fs\<close> is the result of \<open>save_png\<close> above for the answers that
  the file system and libpng give.
\<close>

lemma save_png_fs_result:
  assumes "save_png_fs img filename w = Inr (b, w')"
  shows "save_png img filename
      \<lparr>write_fopen_ok = can_write w filename, create_write_struct_ok = can_allocate w,
       write_info_struct_ok = can_allocate w,
       write_longjmp = (\<not> ihdr_ok (width img) (height img))\<rparr> = b"
  using assms
  by (auto simp: save_png_fs_def save_png_def Let_def split: if_splits sum.splits)

text \<open>
  Claim C8. An image that satisfies the buffer invariant and was saved with success
  is returned by a later \<^verbatim>\<open>load_png\<close> of the same path, whatever the object held
  before: \<^verbatim>\<open>load_png\<close> returns true and leaves the saved width, the saved height and
  the saved buffer, hence the RGBA quadruple of every pixel. None of the
  transformations of \<^verbatim>\<open>load_png\<close> is requested for the file that \<^verbatim>\<open>save_png\<close> writes.
  Saving succeeds when the path can be written, libpng can allocate its objects and
  accepts the dimensions. The encoder and the decoder of libpng and the file system
  are modelled as lossless storage of the header and of the rows.
\<close>

theorem save_load_round_trip:
  assumes "image_ok img"
  shows "(save_png_fs img filename w = Inr (True, w')
           \<longrightarrow> load_png_fs convert old filename w' = Inr (True, img))
    \<and> (can_write w filename \<and> can_allocate w \<and> ihdr_ok (width img) (height img)
           \<longrightarrow> (\<exists>saved. save_png_fs img filename w = Inr (True, saved)))"
proof (intro conjI impI)
  assume "save_png_fs img filename w = Inr (True, w')"
  then have s: "can_write w filename" "can_allocate w" "ihdr_ok (width img) (height img)"
    "w' = w\<lparr>files := (files w)(filename \<mapsto> png_data
           \<lparr>png_width = width img, png_height = height img, png_bit_depth = 8,
            png_color_type = COLOR_TYPE_RGBA, png_interlaced = False, png_has_tRNS = False,
            png_rows = map (\<lambda>y. take (unat (width img) * 4)
                                (drop (y * (unat (width img) * 4)) (data img)))
                         [0..<unat (height img)]\<rparr>)\<rparr>"
    unfolding save_png_fs_success [OF assms] by simp_all
  show "load_png_fs convert old filename w' = Inr (True, img)"
    using assms by (rule load_saved_file) (simp_all add: s)
next
  assume "can_write w filename \<and> can_allocate w \<and> ihdr_ok (width img) (height img)"
  then show "\<exists>saved. save_png_fs img filename w = Inr (True, saved)"
    unfolding save_png_fs_success [OF assms] by simp
qed

lemma image_ok_levels: "image_ok levels_image"
proof -
  have "length (concat (map (\<lambda>x. [of_nat x, of_nat y, of_nat x, of_nat y :: u8]) [0..<256]))
      = 1024" for y :: nat
    by (simp only: length_concat map_map comp_def list.size length_map sum_list_triv length_upt)
      simp
  then have "length (data levels_image) = 262144"
    unfolding levels_image_def
    by (simp only: length_concat map_map comp_def Image.simps sum_list_triv length_upt) simp
  then show ?thesis
    by (simp add: image_ok_def) (simp add: levels_image_def)
qed

theorem save_load_round_trip_witness:
  "image_ok levels_image
   \<and> (\<exists>saved. save_png_fs levels_image ''reference.png'' empty_disk = Inr (True, saved)
        \<and> load_png_fs (\<lambda>transforms file. []) Image_default ''reference.png'' saved
            = Inr (True, levels_image))"
proof -
  have c: "can_write empty_disk ''reference.png'' \<and> can_allocate empty_disk
      \<and> ihdr_ok (width levels_image) (height levels_image)"
    by (simp add: empty_disk_def ihdr_ok_def levels_image_def)
  from save_load_round_trip [OF image_ok_levels, of "''reference.png''" empty_disk]
  show ?thesis
    using c image_ok_levels by blast
qed

end
